theory Spec2Isabelle
  imports Main "HOL-Library.Finite_Map"
begin

section \<open>The consumer-side proxy layer of vfs (src/socket/consumer.js)\<close>

text \<open>
  The module \<^verbatim>\<open>consumer.js\<close> defines one constructor, \<^verbatim>\<open>Consumer\<close>, whose body
  holds seven private dictionaries and the functions that read and write them. The
  embedding below turns the dictionaries into one record of finite maps, every
  function into a function from the record to an outcome, and everything the
  functions do to the outside world (emitting an event on a proxy, calling a
  caller-supplied function, calling the remote side) into a trace of effects.

  Modelling conventions:
  \<^item> The own entries of a JavaScript object used as a dictionary are a finite map.
    Stream ids, watcher ids and pids are the numbers the remote side hands out; event
    names and extension names are strings.
  \<^item> The dictionaries are made by \<^verbatim>\<open>{}\<close>, so reading \<^verbatim>\<open>dict[name]\<close> also finds what
    \<^verbatim>\<open>Object.prototype\<close> holds under that name (such as \<^verbatim>\<open>constructor\<close>). A number is
    never such a name; for the four dictionaries keyed by strings the lookup
    \<open>get_property\<close> below tells an own entry from an inherited member and from
    \<^verbatim>\<open>undefined\<close>.
  \<^item> A proxy is the record of the fields the code reads from it (its id, pid or name, its
    flags, the streams of a process); an event emitted on a proxy names that record.
  \<^item> A caller-supplied function (callback, handler, listener) is opaque: calling it is
    recorded as an effect, it returns normally and does not call back into the
    consumer. An omitted callback is \<open>None\<close>.
  \<^item> The transport is asynchronous: a function handed to \<^verbatim>\<open>remote.subscribe\<close>,
    \<^verbatim>\<open>remote.unsubscribe\<close> or \<^verbatim>\<open>remote[name]\<close> is not called before the
    call returns. Such a function is a value of type \<open>closure\<close>, holding what the
    JavaScript closure captured; the transport runs it later through \<open>invoke\<close>.
  \<^item> A \<^verbatim>\<open>throw\<close>, and the TypeError JavaScript raises on reading a property of
    \<^verbatim>\<open>undefined\<close> or on calling \<^verbatim>\<open>undefined\<close>, is the field \<open>thrown\<close> of the
    outcome. Nothing is rolled back: the outcome keeps the state and the trace as
    they were when the exception was raised.
\<close>

subsection \<open>Values\<close>

datatype jsval =
    JUndefined
  | JNull
  | JBool bool
  | JNum int
  | JStr string
  | JError string

text \<open>What \<^verbatim>\<open>if (v)\<close> tests.\<close>

fun truthy :: "jsval \<Rightarrow> bool" where
  "truthy JUndefined = False"
| "truthy JNull = False"
| "truthy (JBool b) = b"
| "truthy (JNum n) = (n \<noteq> 0)"
| "truthy (JStr s) = (s \<noteq> [])"
| "truthy (JError m) = True"

datatype callback = Callback nat

datatype handler = Handler nat

datatype exn = TypeError | Error string

subsection \<open>Reading a dictionary made by an object literal\<close>

text \<open>
  The members of \<^verbatim>\<open>Object.prototype\<close>, each with the value of its \<^verbatim>\<open>length\<close> (the
  number of parameters of the function; \<open>0\<close> for \<^verbatim>\<open>__proto__\<close>, which is the prototype
  object itself and has no \<^verbatim>\<open>length\<close>). Every one of them is an object, which \<^verbatim>\<open>if\<close>
  accepts, and none has a \<^verbatim>\<open>push\<close> or an \<^verbatim>\<open>emit\<close>.
\<close>

definition object_prototype :: "(string \<times> nat) list" where
  "object_prototype =
     [(''constructor'', 1), (''toString'', 0), (''toLocaleString'', 0), (''valueOf'', 0),
      (''hasOwnProperty'', 1), (''isPrototypeOf'', 1), (''propertyIsEnumerable'', 1),
      (''__defineGetter__'', 2), (''__defineSetter__'', 2), (''__lookupGetter__'', 1),
      (''__lookupSetter__'', 1), (''__proto__'', 0)]"

definition inherited :: "string \<Rightarrow> bool" where
  "inherited name = (map_of object_prototype name \<noteq> None)"

text \<open>
  What \<^verbatim>\<open>dict[name]\<close> gives: the own entry, an inherited member (with its \<^verbatim>\<open>length\<close>), or
  \<^verbatim>\<open>undefined\<close>. Only the last is refused by \<^verbatim>\<open>if (dict[name])\<close>: the own entries of the
  four dictionaries are arrays and event emitters.
\<close>

datatype 'a slot = Own 'a | Inherited nat | Absent

definition get_property :: "(string, 'a) fmap \<Rightarrow> string \<Rightarrow> 'a slot" where
  "get_property dict name =
     (case fmlookup dict name of
        Some v \<Rightarrow> Own v
      | None \<Rightarrow> (case map_of object_prototype name of Some n \<Rightarrow> Inherited n | None \<Rightarrow> Absent))"

subsection \<open>Tokens and proxies\<close>

text \<open>
  A stream token carries \<^verbatim>\<open>id\<close> and, when it owns them, \<^verbatim>\<open>readable\<close> and
  \<^verbatim>\<open>writable\<close> (\<^verbatim>\<open>token.hasOwnProperty\<close>). The proxy's two flags are only ever
  tested for truth, so the proxy keeps them as booleans; a flag the token does not own
  stays \<^verbatim>\<open>undefined\<close>, which is false.
\<close>

record stream_token =
  token_id :: nat
  token_readable :: "bool option"
  token_writable :: "bool option"

record process_token =
  token_pid :: nat
  token_stdout :: stream_token
  token_stderr :: stream_token
  token_stdin :: stream_token

record watcher_token =
  token_watcher_id :: nat

record api_token =
  token_name :: string
  token_names :: "string list"

record stream =
  stream_id :: nat
  readable :: bool
  writable :: bool

record process =
  pid :: nat
  stdout :: stream
  stderr :: stream
  stdin :: stream

record watcher =
  watcher_id :: nat

record api =
  api_name :: string
  api_functions :: "string list"

text \<open>
  The result object of a remote operation, before and after \<^verbatim>\<open>route\<close> has replaced
  its four well-known fields.
\<close>

record meta =
  meta_stream :: "stream_token option"
  meta_process :: "process_token option"
  meta_watcher :: "watcher_token option"
  meta_api :: "api_token option"

record proxied_meta =
  proxied_stream :: "stream option"
  proxied_process :: "process option"
  proxied_watcher :: "watcher option"
  proxied_api :: "api option"

subsection \<open>Closures handed to the transport, and effects\<close>

text \<open>
  The acknowledgement functions of \<^verbatim>\<open>on\<close> and \<^verbatim>\<open>off\<close> capture \<^verbatim>\<open>name\<close> and the
  array \<^verbatim>\<open>pending\<close> (by reference: a number into the store \<open>arrays\<close> below). The
  function \<^verbatim>\<open>route\<close> hands to \<^verbatim>\<open>remote[name]\<close> captures \<^verbatim>\<open>callback\<close>.
\<close>

datatype closure =
    SubscribeAck string nat
  | UnsubscribeAck string nat
  | RouteReply callback

datatype target =
    OnStream stream
  | OnProcess process
  | OnWatcher watcher
  | OnApi api

datatype argument =
    Value jsval
  | Meta proxied_meta

datatype effect =
    Emit target string "jsval list"
  | Call callback "argument list"
  | CallHandler handler jsval
  | RemoteSubscribe string closure
  | RemoteUnsubscribe string closure
  | RemoteOperation string jsval jsval closure
  | RemotePing "callback option"
  | RemoteEmit "jsval list"
  | RemoteWrite nat jsval
  | RemoteEnd nat "jsval list"
  | RemoteDestroy nat
  | RemoteKill nat jsval
  | RemoteClose nat
  | RemoteCall string string "jsval list"

subsection \<open>The state of one consumer\<close>

text \<open>
  The seven dictionaries of the constructor. \<open>pendingOn\<close> and \<open>pendingOff\<close> hold
  references to arrays of callbacks; \<open>arrays\<close> is the store of those arrays, a
  reference being an index into it. A new array is allocated at the end of the store,
  so it is never one that an older reference denotes.
\<close>

record consumer =
  proxyStreams :: "(nat, stream) fmap"
  proxyProcesses :: "(nat, process) fmap"
  proxyWatchers :: "(nat, watcher) fmap"
  proxyApis :: "(string, api) fmap"
  handlers :: "(string, handler list) fmap"
  pendingOn :: "(string, nat) fmap"
  pendingOff :: "(string, nat) fmap"
  arrays :: "callback list list"

definition init :: consumer where
  "init = \<lparr>proxyStreams = fmempty, proxyProcesses = fmempty, proxyWatchers = fmempty,
     proxyApis = fmempty, handlers = fmempty, pendingOn = fmempty, pendingOff = fmempty,
     arrays = []\<rparr>"

text \<open>
  What a call does: the exception it raised if any, the effects in the order they
  happened, each with the state it happened in (what a listener called at that moment
  would find), and the state it left.
\<close>

record outcome =
  thrown :: "exn option"
  trace :: "(effect \<times> consumer) list"
  final :: consumer

definition returns :: "(effect \<times> consumer) list \<Rightarrow> consumer \<Rightarrow> outcome" where
  "returns es s = \<lparr>thrown = None, trace = es, final = s\<rparr>"

definition throws :: "exn \<Rightarrow> (effect \<times> consumer) list \<Rightarrow> consumer \<Rightarrow> outcome" where
  "throws e es s = \<lparr>thrown = Some e, trace = es, final = s\<rparr>"

definition effects :: "outcome \<Rightarrow> effect list" where
  "effects r = map fst (trace r)"

text \<open>One step after another inside one call; an exception ends the call.\<close>

definition andThen :: "outcome \<Rightarrow> (consumer \<Rightarrow> outcome) \<Rightarrow> outcome" where
  "andThen r f =
     (case thrown r of
        Some e \<Rightarrow> r
      | None \<Rightarrow>
          (let r' = f (final r)
           in \<lparr>thrown = thrown r', trace = trace r @ trace r', final = final r'\<rparr>))"

subsection \<open>Arrays of pending callbacks\<close>

definition new_array :: "consumer \<Rightarrow> nat \<times> consumer" where
  "new_array s = (length (arrays s), s\<lparr>arrays := arrays s @ [[]]\<rparr>)"

definition array_at :: "consumer \<Rightarrow> nat \<Rightarrow> callback list" where
  "array_at s r = (if r < length (arrays s) then arrays s ! r else [])"

text \<open>\<^verbatim>\<open>callback && pending.push(callback)\<close>\<close>

definition push_if_given :: "nat \<Rightarrow> callback option \<Rightarrow> consumer \<Rightarrow> consumer" where
  "push_if_given r callback s =
     (case callback of
        None \<Rightarrow> s
      | Some cb \<Rightarrow> s\<lparr>arrays := (arrays s)[r := array_at s r @ [cb]]\<rparr>)"

subsection \<open>Making proxies\<close>

text \<open>
  Lines 61 to 121 of the source. \<^verbatim>\<open>makeProcessProxy\<close> stores the process object under
  its pid before it makes the three streams; the object is shared, so the registry
  holds the process with its streams, as here. \<^verbatim>\<open>makeApiProxy\<close> stores the proxy as the
  entry of the token's name; for the one name \<^verbatim>\<open>__proto__\<close> the assignment would instead
  replace the prototype of \<^verbatim>\<open>proxyApis\<close>, which reads back under that name like an entry
  but adds the members of the proxy to the inherited names. The lemmas below that
  read \<^verbatim>\<open>proxyApis\<close> in an arbitrary state assume that it has no entry under this name.
\<close>

definition makeStreamProxy :: "stream_token \<Rightarrow> consumer \<Rightarrow> stream \<times> consumer" where
  "makeStreamProxy token s =
     (let stream = \<lparr>stream_id = token_id token,
                     readable = (case token_readable token of Some b \<Rightarrow> b | None \<Rightarrow> False),
                     writable = (case token_writable token of Some b \<Rightarrow> b | None \<Rightarrow> False)\<rparr>
      in (stream, s\<lparr>proxyStreams := fmupd (token_id token) stream (proxyStreams s)\<rparr>))"

definition makeProcessProxy :: "process_token \<Rightarrow> consumer \<Rightarrow> process \<times> consumer" where
  "makeProcessProxy token s =
     (let (out, s1) = makeStreamProxy (token_stdout token) s;
          (err, s2) = makeStreamProxy (token_stderr token) s1;
          (inp, s3) = makeStreamProxy (token_stdin token) s2;
          process = \<lparr>pid = token_pid token, stdout = out, stderr = err, stdin = inp\<rparr>
      in (process, s3\<lparr>proxyProcesses := fmupd (token_pid token) process (proxyProcesses s3)\<rparr>))"

definition makeWatcherProxy :: "watcher_token \<Rightarrow> consumer \<Rightarrow> watcher \<times> consumer" where
  "makeWatcherProxy token s =
     (let watcher = \<lparr>watcher_id = token_watcher_id token\<rparr>
      in (watcher, s\<lparr>proxyWatchers := fmupd (token_watcher_id token) watcher (proxyWatchers s)\<rparr>))"

definition makeApiProxy :: "api_token \<Rightarrow> consumer \<Rightarrow> api \<times> consumer" where
  "makeApiProxy token s =
     (let api = \<lparr>api_name = token_name token, api_functions = token_names token\<rparr>
      in (api, s\<lparr>proxyApis := fmupd (token_name token) api (proxyApis s)\<rparr>))"

text \<open>\<^verbatim>\<open>if (meta.x) meta.x = makeXProxy(meta.x)\<close>\<close>

fun materialize ::
  "('t \<Rightarrow> consumer \<Rightarrow> 'p \<times> consumer) \<Rightarrow> 't option \<Rightarrow> consumer \<Rightarrow> 'p option \<times> consumer" where
  "materialize mk None s = (None, s)"
| "materialize mk (Some token) s = (let (proxy, s') = mk token s in (Some proxy, s'))"

subsection \<open>Methods of the proxies\<close>

text \<open>
  The functions that the four \<^verbatim>\<open>make...Proxy\<close> install on a proxy; each captures the id,
  pid or name of its token. A stream proxy has \<^verbatim>\<open>write\<close> and \<^verbatim>\<open>end\<close> only when it is
  writable and \<^verbatim>\<open>destroy\<close> only when it is readable, and an api proxy has the functions
  its token named: calling a method that was not installed is the caller's TypeError.
\<close>

definition stream_write :: "stream \<Rightarrow> jsval \<Rightarrow> consumer \<Rightarrow> outcome" where
  "stream_write st chunk s =
     (if writable st then returns [(RemoteWrite (stream_id st) chunk, s)] s
      else throws TypeError [] s)"

definition stream_end :: "stream \<Rightarrow> jsval \<Rightarrow> consumer \<Rightarrow> outcome" where
  "stream_end st chunk s =
     (if writable st
      then returns [(RemoteEnd (stream_id st) (if truthy chunk then [chunk] else []), s)] s
      else throws TypeError [] s)"

definition stream_destroy :: "stream \<Rightarrow> consumer \<Rightarrow> outcome" where
  "stream_destroy st s =
     (if readable st then returns [(RemoteDestroy (stream_id st), s)] s
      else throws TypeError [] s)"

definition process_kill :: "process \<Rightarrow> jsval \<Rightarrow> consumer \<Rightarrow> outcome" where
  "process_kill p signal s = returns [(RemoteKill (pid p) signal, s)] s"

definition watcher_close :: "watcher \<Rightarrow> consumer \<Rightarrow> outcome" where
  "watcher_close w s =
     returns [(RemoteClose (watcher_id w), s)]
       (s\<lparr>proxyWatchers := fmdrop (watcher_id w) (proxyWatchers s)\<rparr>)"

definition api_call :: "api \<Rightarrow> string \<Rightarrow> jsval list \<Rightarrow> consumer \<Rightarrow> outcome" where
  "api_call a functionName args s =
     (if functionName \<in> set (api_functions a)
      then returns [(RemoteCall (api_name a) functionName args, s)] s
      else throws TypeError [] s)"

subsection \<open>Inbound notifications\<close>

text \<open>
  Lines 123 to 166 of the source: the seven functions of the table given to
  \<^verbatim>\<open>Agent.call\<close>. \<^verbatim>\<open>onExit\<close>, \<^verbatim>\<open>onData\<close> and \<^verbatim>\<open>onEnd\<close> use the registry entry
  without a test; \<^verbatim>\<open>onClose\<close>, \<^verbatim>\<open>onChange\<close>, \<^verbatim>\<open>onReady\<close> and \<^verbatim>\<open>onEvent\<close> return
  when the lookup gives \<^verbatim>\<open>undefined\<close>.
\<close>

definition onExit :: "nat \<Rightarrow> jsval \<Rightarrow> jsval \<Rightarrow> consumer \<Rightarrow> outcome" where
  "onExit p code signal s =
     (case fmlookup (proxyProcesses s) p of
        None \<Rightarrow> throws TypeError [] s
      | Some process \<Rightarrow>
          returns [(Emit (OnProcess process) ''exit'' [code, signal], s)]
            (s\<lparr>proxyProcesses := fmdrop p (proxyProcesses s),
               proxyStreams :=
                 fmdrop (stream_id (stdin process))
                   (fmdrop (stream_id (stderr process))
                     (fmdrop (stream_id (stdout process)) (proxyStreams s)))\<rparr>))"

definition onData :: "nat \<Rightarrow> jsval \<Rightarrow> consumer \<Rightarrow> outcome" where
  "onData sid chunk s =
     (case fmlookup (proxyStreams s) sid of
        None \<Rightarrow> throws TypeError [] s
      | Some stream \<Rightarrow> returns [(Emit (OnStream stream) ''data'' [chunk], s)] s)"

definition onEnd :: "nat \<Rightarrow> consumer \<Rightarrow> outcome" where
  "onEnd sid s =
     (case fmlookup (proxyStreams s) sid of
        None \<Rightarrow> throws TypeError [] s
      | Some stream \<Rightarrow>
          returns [(Emit (OnStream stream) ''end'' [], s)]
            (s\<lparr>proxyStreams := fmdrop sid (proxyStreams s)\<rparr>))"

definition onClose :: "nat \<Rightarrow> consumer \<Rightarrow> outcome" where
  "onClose sid s =
     (case fmlookup (proxyStreams s) sid of
        None \<Rightarrow> returns [] s
      | Some stream \<Rightarrow>
          returns [(Emit (OnStream stream) ''close'' [], s)]
            (s\<lparr>proxyStreams := fmdrop sid (proxyStreams s)\<rparr>))"

definition onChange :: "nat \<Rightarrow> jsval \<Rightarrow> jsval \<Rightarrow> consumer \<Rightarrow> outcome" where
  "onChange wid event filename s =
     (case fmlookup (proxyWatchers s) wid of
        None \<Rightarrow> returns [] s
      | Some watcher \<Rightarrow> returns [(Emit (OnWatcher watcher) ''change'' [event, filename], s)] s)"

text \<open>
  \<^verbatim>\<open>onReady\<close> calls \<^verbatim>\<open>api.emit("ready")\<close> on whatever \<^verbatim>\<open>proxyApis[name]\<close> gave. An inherited
  member has no \<^verbatim>\<open>emit\<close>. On an api proxy whose token named a function \<^verbatim>\<open>emit\<close>,
  \<^verbatim>\<open>makeApiProxy\<close> has replaced the emitter's \<^verbatim>\<open>emit\<close> by the forwarding function, so the
  call goes to \<^verbatim>\<open>remote.call\<close>.
\<close>

definition onReady :: "string \<Rightarrow> consumer \<Rightarrow> outcome" where
  "onReady name s =
     (case get_property (proxyApis s) name of
        Absent \<Rightarrow> returns [] s
      | Inherited n \<Rightarrow> throws TypeError [] s
      | Own api \<Rightarrow>
          (if ''emit'' \<in> set (api_functions api)
           then returns [(RemoteCall (api_name api) ''emit'' [JStr ''ready''], s)] s
           else returns [(Emit (OnApi api) ''ready'' [], s)] s))"

text \<open>
  \<^verbatim>\<open>onEvent\<close> loops from \<^verbatim>\<open>0\<close> to \<^verbatim>\<open>list.length\<close> and calls \<^verbatim>\<open>list[i](value)\<close>. On an
  inherited member the loop runs when its \<^verbatim>\<open>length\<close> is not \<^verbatim>\<open>0\<close>, and \<^verbatim>\<open>list[0]\<close> is
  \<^verbatim>\<open>undefined\<close>.
\<close>

definition onEvent :: "string \<Rightarrow> jsval \<Rightarrow> consumer \<Rightarrow> outcome" where
  "onEvent name v s =
     (case get_property (handlers s) name of
        Absent \<Rightarrow> returns [] s
      | Inherited n \<Rightarrow> (if n = 0 then returns [] s else throws TypeError [] s)
      | Own list \<Rightarrow> returns (map (\<lambda>h. (CallHandler h v, s)) list) s)"

text \<open>
  The listener on the agent's own \<^verbatim>\<open>drain\<close> event (lines 52 to 58):
  \<^verbatim>\<open>Object.keys(proxyStreams).forEach(...)\<close>. The keys are numbers, which
  \<^verbatim>\<open>Object.keys\<close> lists in ascending order. The body reads \<^verbatim>\<open>proxyStreams[id]\<close>
  again for every key and dereferences it.
\<close>

fun drain_forEach :: "nat list \<Rightarrow> consumer \<Rightarrow> outcome" where
  "drain_forEach [] s = returns [] s"
| "drain_forEach (sid # sids) s =
     (case fmlookup (proxyStreams s) sid of
        None \<Rightarrow> throws TypeError [] s
      | Some stream \<Rightarrow>
          andThen
            (if writable stream then returns [(Emit (OnStream stream) ''drain'' [], s)] s
             else returns [] s)
            (drain_forEach sids))"

definition drain :: "consumer \<Rightarrow> outcome" where
  "drain s = drain_forEach (sorted_list_of_fset (fmdom (proxyStreams s))) s"

text \<open>The seven notifications of the table and the drain event, as the transport delivers them.\<close>

datatype notification =
    Exit nat jsval jsval
  | Data nat jsval
  | End nat
  | Close nat
  | Change nat jsval jsval
  | Ready string
  | Event string jsval
  | Drain

fun dispatch :: "notification \<Rightarrow> consumer \<Rightarrow> outcome" where
  "dispatch (Exit p code signal) s = onExit p code signal s"
| "dispatch (Data sid chunk) s = onData sid chunk s"
| "dispatch (End sid) s = onEnd sid s"
| "dispatch (Close sid) s = onClose sid s"
| "dispatch (Change wid event filename) s = onChange wid event filename s"
| "dispatch (Ready name) s = onReady name s"
| "dispatch (Event name v) s = onEvent name v s"
| "dispatch Drain s = drain s"

subsection \<open>Subscriptions\<close>

text \<open>
  Lines 168 to 205 of the source. \<open>subscribe_ack\<close> and \<open>unsubscribe_ack\<close> are the
  functions that \<^verbatim>\<open>on\<close> and \<^verbatim>\<open>off\<close> hand to \<^verbatim>\<open>remote.subscribe\<close> and
  \<^verbatim>\<open>remote.unsubscribe\<close>; the array they loop over is the one the call that made them
  allocated, whatever \<open>pendingOn\<close> or \<open>pendingOff\<close> holds for the name by then.

  Where \<^verbatim>\<open>handlers[name]\<close>, \<^verbatim>\<open>pendingOn[name]\<close> or \<^verbatim>\<open>pendingOff[name]\<close> is an inherited
  member, the tests \<^verbatim>\<open>if (handlers[name])\<close> and \<^verbatim>\<open>if (pendingOff[name])\<close> succeed and
  the \<^verbatim>\<open>push\<close> that follows is a call of \<^verbatim>\<open>undefined\<close>; \<^verbatim>\<open>callback && ...push(callback)\<close>
  does not reach it when the callback is omitted. \<^verbatim>\<open>delete\<close> removes own entries only.
\<close>

definition on :: "string \<Rightarrow> handler \<Rightarrow> callback option \<Rightarrow> consumer \<Rightarrow> outcome" where
  "on name h callback s =
     (case get_property (handlers s) name of
        Own list \<Rightarrow>
          (let s1 = s\<lparr>handlers := fmupd name (list @ [h]) (handlers s)\<rparr>
           in case get_property (pendingOn s1) name of
                Own r \<Rightarrow> returns [] (push_if_given r callback s1)
              | Inherited n \<Rightarrow>
                  (case callback of
                     None \<Rightarrow> returns [] s1
                   | Some cb \<Rightarrow> throws TypeError [] s1)
              | Absent \<Rightarrow>
                  (case callback of
                     None \<Rightarrow> throws TypeError [] s1
                   | Some cb \<Rightarrow> returns [(Call cb [], s1)] s1))
      | Inherited n \<Rightarrow> throws TypeError [] s
      | Absent \<Rightarrow>
          (let s1 = s\<lparr>handlers := fmupd name [h] (handlers s)\<rparr>;
               (r, s2) = new_array s1;
               s3 = s2\<lparr>pendingOn := fmupd name r (pendingOn s2)\<rparr>;
               s4 = push_if_given r callback s3
           in returns [(RemoteSubscribe name (SubscribeAck name r), s4)] s4))"

definition subscribe_ack :: "string \<Rightarrow> nat \<Rightarrow> jsval \<Rightarrow> consumer \<Rightarrow> outcome" where
  "subscribe_ack name r err s =
     returns (map (\<lambda>cb. (Call cb [Value err], s)) (array_at s r))
       (s\<lparr>pendingOn := fmdrop name (pendingOn s)\<rparr>)"

definition off :: "string \<Rightarrow> handler \<Rightarrow> callback option \<Rightarrow> consumer \<Rightarrow> outcome" where
  "off name h callback s =
     (case get_property (pendingOff s) name of
        Own r \<Rightarrow> returns [] (push_if_given r callback s)
      | Inherited n \<Rightarrow>
          (case callback of
             None \<Rightarrow> returns [] s
           | Some cb \<Rightarrow> throws TypeError [] s)
      | Absent \<Rightarrow>
          (case get_property (handlers s) name of
             Absent \<Rightarrow>
               (case callback of
                  None \<Rightarrow> throws TypeError [] s
                | Some cb \<Rightarrow> returns [(Call cb [], s)] s)
           | _ \<Rightarrow>
               (let (r, s1) = new_array s;
                    s2 = s1\<lparr>pendingOff := fmupd name r (pendingOff s1)\<rparr>;
                    s3 = push_if_given r callback s2
                in returns [(RemoteUnsubscribe name (UnsubscribeAck name r), s3)] s3)))"

definition unsubscribe_ack :: "string \<Rightarrow> nat \<Rightarrow> jsval \<Rightarrow> consumer \<Rightarrow> outcome" where
  "unsubscribe_ack name r err s =
     (let s1 = s\<lparr>handlers := fmdrop name (handlers s)\<rparr>
      in returns (map (\<lambda>cb. (Call cb [Value err], s1)) (array_at s1 r))
           (s1\<lparr>pendingOff := fmdrop name (pendingOff s1)\<rparr>))"

subsection \<open>The facade\<close>

text \<open>
  Lines 207 to 236 of the source, and the table \<^verbatim>\<open>this.vfs\<close> of lines 28 to 49.
  \<^verbatim>\<open>route(name)\<close> is the function installed in \<^verbatim>\<open>this.vfs\<close> for each of the
  sixteen operations listed there; \<open>route_reply\<close> is the function it hands to
  \<^verbatim>\<open>remote[name]\<close>, run with the error and the result object of the reply (\<open>None\<close>
  for a reply without a result object).
\<close>

definition vfs_operations :: "string list" where
  "vfs_operations =
     [''spawn'', ''exec'', ''connect'', ''readfile'', ''mkfile'', ''rmfile'', ''readdir'',
      ''stat'', ''mkdir'', ''rmdir'', ''rename'', ''copy'', ''symlink'', ''watch'',
      ''changedSince'', ''extend'']"

definition route ::
  "string \<Rightarrow> jsval \<Rightarrow> jsval \<Rightarrow> callback option \<Rightarrow> consumer \<Rightarrow> outcome" where
  "route name path options callback s =
     (case callback of
        None \<Rightarrow> throws (Error (''Forgot to pass in callback for '' @ name)) [] s
      | Some cb \<Rightarrow> returns [(RemoteOperation name path options (RouteReply cb), s)] s)"

definition route_reply :: "callback \<Rightarrow> jsval \<Rightarrow> meta option \<Rightarrow> consumer \<Rightarrow> outcome" where
  "route_reply cb err result s =
     (if truthy err then returns [(Call cb [Value err], s)] s
      else case result of
             None \<Rightarrow> throws TypeError [] s
           | Some m \<Rightarrow>
               (let (st, s1) = materialize makeStreamProxy (meta_stream m) s;
                    (pr, s2) = materialize makeProcessProxy (meta_process m) s1;
                    (wa, s3) = materialize makeWatcherProxy (meta_watcher m) s2;
                    (ap, s4) = materialize makeApiProxy (meta_api m) s3
                in returns
                     [(Call cb [Value JNull,
                         Meta \<lparr>proxied_stream = st, proxied_process = pr,
                               proxied_watcher = wa, proxied_api = ap\<rparr>], s4)] s4))"

text \<open>
  The two other entries of \<^verbatim>\<open>this.vfs\<close> that reach the remote side are not built by
  \<^verbatim>\<open>route\<close>: \<^verbatim>\<open>ping\<close> and \<^verbatim>\<open>emit\<close> hand their arguments to the transport as they are.
\<close>

definition ping :: "callback option \<Rightarrow> consumer \<Rightarrow> outcome" where
  "ping callback s = returns [(RemotePing callback, s)] s"

definition emit :: "jsval list \<Rightarrow> consumer \<Rightarrow> outcome" where
  "emit args s = returns [(RemoteEmit args, s)] s"

text \<open>The transport running a function it was handed, with the reply's arguments.\<close>

fun invoke :: "closure \<Rightarrow> jsval \<Rightarrow> meta option \<Rightarrow> consumer \<Rightarrow> outcome" where
  "invoke (SubscribeAck name r) err result s = subscribe_ack name r err s"
| "invoke (UnsubscribeAck name r) err result s = unsubscribe_ack name r err s"
| "invoke (RouteReply cb) err result s = route_reply cb err result s"

subsection \<open>Executions\<close>

text \<open>
  Every way control enters the code of one consumer: a call of an entry of
  \<^verbatim>\<open>this.vfs\<close>, a call of a method of a proxy, a notification from the transport, and
  the transport running a function it was handed. An execution is a list of such
  calls, each starting in the state the one before left; an exception ends the call
  that raised it and nothing else.
\<close>

datatype call =
    On string handler "callback option"
  | Off string handler "callback option"
  | Route string jsval jsval "callback option"
  | Ping "callback option"
  | EmitRemote "jsval list"
  | StreamWrite stream jsval
  | StreamEnd stream jsval
  | StreamDestroy stream
  | ProcessKill process jsval
  | WatcherClose watcher
  | ApiCall api string "jsval list"
  | Notify notification
  | Reply closure jsval "meta option"

fun perform :: "call \<Rightarrow> consumer \<Rightarrow> outcome" where
  "perform (On name h callback) s = on name h callback s"
| "perform (Off name h callback) s = off name h callback s"
| "perform (Route name path options callback) s = route name path options callback s"
| "perform (Ping callback) s = ping callback s"
| "perform (EmitRemote args) s = emit args s"
| "perform (StreamWrite st chunk) s = stream_write st chunk s"
| "perform (StreamEnd st chunk) s = stream_end st chunk s"
| "perform (StreamDestroy st) s = stream_destroy st s"
| "perform (ProcessKill p signal) s = process_kill p signal s"
| "perform (WatcherClose w) s = watcher_close w s"
| "perform (ApiCall a functionName args) s = api_call a functionName args s"
| "perform (Notify n) s = dispatch n s"
| "perform (Reply c err result) s = invoke c err result s"

fun outcomes :: "call list \<Rightarrow> consumer \<Rightarrow> outcome list" where
  "outcomes [] s = []"
| "outcomes (c # cs) s = perform c s # outcomes cs (final (perform c s))"

fun state_after :: "call list \<Rightarrow> consumer \<Rightarrow> consumer" where
  "state_after [] s = s"
| "state_after (c # cs) s = state_after cs (final (perform c s))"

text \<open>
  The registrations and the removals an execution makes for one event name, in order,
  and the calls that are an acknowledgement for that name.
\<close>

fun registrations :: "string \<Rightarrow> call list \<Rightarrow> (handler \<times> callback option) list" where
  "registrations name [] = []"
| "registrations name (On n h cb # cs) =
     (if n = name then (h, cb) # registrations name cs else registrations name cs)"
| "registrations name (c # cs) = registrations name cs"

fun removals :: "string \<Rightarrow> call list \<Rightarrow> (handler \<times> callback option) list" where
  "removals name [] = []"
| "removals name (Off n h cb # cs) =
     (if n = name then (h, cb) # removals name cs else removals name cs)"
| "removals name (c # cs) = removals name cs"

fun subscribe_ack_for :: "string \<Rightarrow> call \<Rightarrow> bool" where
  "subscribe_ack_for name (Reply (SubscribeAck n r) err result) = (n = name)"
| "subscribe_ack_for name c = False"

fun unsubscribe_ack_for :: "string \<Rightarrow> call \<Rightarrow> bool" where
  "unsubscribe_ack_for name (Reply (UnsubscribeAck n r) err result) = (n = name)"
| "unsubscribe_ack_for name c = False"

fun subscribes :: "string \<Rightarrow> effect \<Rightarrow> bool" where
  "subscribes name (RemoteSubscribe n c) = (n = name)"
| "subscribes name e = False"

fun unsubscribes :: "string \<Rightarrow> effect \<Rightarrow> bool" where
  "unsubscribes name (RemoteUnsubscribe n c) = (n = name)"
| "unsubscribes name e = False"

fun calls_back :: "effect \<Rightarrow> bool" where
  "calls_back (Call cb args) = True"
| "calls_back e = False"

fun registers :: "string \<Rightarrow> call \<Rightarrow> bool" where
  "registers name (On n h cb) = (n = name)"
| "registers name c = False"

fun removes :: "string \<Rightarrow> call \<Rightarrow> bool" where
  "removes name (Off n h cb) = (n = name)"
| "removes name c = False"

text \<open>The part of the state that \<open>on\<close>, \<open>off\<close> and their acknowledgements use.\<close>

definition subscriptions ::
  "consumer \<Rightarrow> (string, handler list) fmap \<times> (string, nat) fmap \<times> (string, nat) fmap \<times> callback list list" where
  "subscriptions s = (handlers s, pendingOn s, pendingOff s, arrays s)"

text \<open>
  Every reference in \<open>pendingOn\<close> and \<open>pendingOff\<close> denotes an array of the store, and
  no entry of \<open>handlers\<close>, \<open>pendingOn\<close> or \<open>pendingOff\<close> sits under the name of an
  inherited member: \<^verbatim>\<open>on\<close> and \<^verbatim>\<open>off\<close> write an entry only after the lookup at that
  name gave \<^verbatim>\<open>undefined\<close> or an own entry. This holds of \<open>init\<close> and is kept by every call.
\<close>

definition allocated :: "consumer \<Rightarrow> bool" where
  "allocated s =
     (fmpred (\<lambda>n r. r < length (arrays s) \<and> \<not> inherited n) (pendingOn s)
      \<and> fmpred (\<lambda>n r. r < length (arrays s) \<and> \<not> inherited n) (pendingOff s)
      \<and> fmpred (\<lambda>n list. \<not> inherited n) (handlers s))"

text \<open>
  Every stream proxy is registered under its own id. This too holds of \<open>init\<close> and is
  kept by every call: \<open>makeStreamProxy\<close> is the only writer of the stream registry.
\<close>

definition ids_agree :: "consumer \<Rightarrow> bool" where
  "ids_agree s = fmpred (\<lambda>k st. stream_id st = k) (proxyStreams s)"

text \<open>The array \<open>r\<close> is the pending array of \<open>name\<close> in \<open>pendingOn\<close>, and of nothing else.\<close>

definition subscribing :: "string \<Rightarrow> nat \<Rightarrow> consumer \<Rightarrow> bool" where
  "subscribing name r s =
     (\<not> inherited name
      \<and> fmlookup (handlers s) name \<noteq> None \<and> fmlookup (pendingOn s) name = Some r
      \<and> r < length (arrays s)
      \<and> (\<forall>n. n \<noteq> name \<longrightarrow> fmlookup (pendingOn s) n \<noteq> Some r)
      \<and> (\<forall>n. fmlookup (pendingOff s) n \<noteq> Some r))"

text \<open>The same for \<open>pendingOff\<close>.\<close>

definition unsubscribing :: "string \<Rightarrow> nat \<Rightarrow> consumer \<Rightarrow> bool" where
  "unsubscribing name r s =
     (\<not> inherited name
      \<and> fmlookup (pendingOff s) name = Some r
      \<and> r < length (arrays s)
      \<and> (\<forall>n. n \<noteq> name \<longrightarrow> fmlookup (pendingOff s) n \<noteq> Some r)
      \<and> (\<forall>n. fmlookup (pendingOn s) n \<noteq> Some r))"

subsection \<open>Callbacks that were given\<close>

text \<open>
  What a sequence of \<^verbatim>\<open>on\<close> or \<^verbatim>\<open>off\<close> calls leaves in a pending array: the
  callbacks of the calls that passed one, in the order of the calls.
\<close>

fun given :: "callback option \<Rightarrow> callback list" where
  "given None = []"
| "given (Some cb) = [cb]"

definition given_callbacks :: "(handler \<times> callback option) list \<Rightarrow> callback list" where
  "given_callbacks hcs = concat (map (\<lambda>(h, cb). given cb) hcs)"

subsection \<open>A worked scenario\<close>

text \<open>
  The reply to \<^verbatim>\<open>spawn\<close> of the specification's scenario: process 7 with the readable
  streams 1 and 2 and the writable stream 3; the consumer that received it and the
  process proxy it made; and a consumer in which three handlers are subscribed to the
  event \<open>change\<close>.
\<close>

definition spawn_result :: meta where
  "spawn_result =
     \<lparr>meta_stream = None,
      meta_process = Some
        \<lparr>token_pid = 7,
         token_stdout = \<lparr>token_id = 1, token_readable = Some True, token_writable = None\<rparr>,
         token_stderr = \<lparr>token_id = 2, token_readable = Some True, token_writable = None\<rparr>,
         token_stdin = \<lparr>token_id = 3, token_readable = None, token_writable = Some True\<rparr>\<rparr>,
      meta_watcher = None,
      meta_api = None\<rparr>"

definition spawned :: consumer where
  "spawned = final (invoke (RouteReply (Callback 0)) JNull (Some spawn_result) init)"

definition process7 :: process where
  "process7 =
     \<lparr>pid = 7,
      stdout = \<lparr>stream_id = 1, readable = True, writable = False\<rparr>,
      stderr = \<lparr>stream_id = 2, readable = True, writable = False\<rparr>,
      stdin = \<lparr>stream_id = 3, readable = False, writable = True\<rparr>\<rparr>"

definition subscribed :: consumer where
  "subscribed =
     state_after
       [On ''change'' (Handler 1) (Some (Callback 1)),
        On ''change'' (Handler 2) (Some (Callback 2)),
        On ''change'' (Handler 3) (Some (Callback 3)),
        Reply (SubscribeAck ''change'' 0) JNull None]
       init"

text \<open>
  What happens between a first \<^verbatim>\<open>on("change", ...)\<close> and its acknowledgement in the
  first scenario, and between a first \<^verbatim>\<open>off("change", ...)\<close> and its acknowledgement in
  the second.
\<close>

definition while_subscribing :: "call list" where
  "while_subscribing =
     [On ''rename'' (Handler 9) (Some (Callback 9)),
      On ''change'' (Handler 2) (Some (Callback 2)),
      Notify (Data 1 (JStr ''x'')),
      Off ''change'' (Handler 1) (Some (Callback 7)),
      Route ''stat'' (JStr ''/'') JNull (Some (Callback 8)),
      On ''change'' (Handler 3) (Some (Callback 3))]"

definition while_unsubscribing :: "call list" where
  "while_unsubscribing =
     [On ''change'' (Handler 4) (Some (Callback 6)),
      Notify (Event ''change'' (JNum 1)),
      Off ''rename'' (Handler 9) (Some (Callback 9)),
      Off ''change'' (Handler 1) (Some (Callback 5))]"

section \<open>Properties\<close>

subsection \<open>Auxiliary facts\<close>

lemma given_callbacks_simps [simp]:
  "given_callbacks [] = []"
  "given_callbacks ((h, cb) # hcs) = given cb @ given_callbacks hcs"
  by (simp_all add: given_callbacks_def)

lemma andThen_returns [simp]:
  "andThen (returns es s) f =
     \<lparr>thrown = thrown (f s), trace = es @ trace (f s), final = final (f s)\<rparr>"
  by (simp add: andThen_def returns_def Let_def)

lemma array_at_push:
  "r < length (arrays s) \<Longrightarrow> array_at (push_if_given r cb s) r = array_at s r @ given cb"
  by (cases cb) (simp_all add: push_if_given_def array_at_def)

lemma array_at_handlers_update [simp]:
  "array_at (s\<lparr>handlers := x\<rparr>) r = array_at s r"
  by (simp add: array_at_def)

lemma push_if_given_fields [simp]:
  "handlers (push_if_given r cb s) = handlers s"
  "pendingOn (push_if_given r cb s) = pendingOn s"
  "pendingOff (push_if_given r cb s) = pendingOff s"
  "proxyStreams (push_if_given r cb s) = proxyStreams s"
  "proxyProcesses (push_if_given r cb s) = proxyProcesses s"
  "proxyWatchers (push_if_given r cb s) = proxyWatchers s"
  "proxyApis (push_if_given r cb s) = proxyApis s"
  "length (arrays (push_if_given r cb s)) = length (arrays s)"
  by (cases cb; simp add: push_if_given_def)+

lemma array_at_push_other:
  "r' \<noteq> r \<Longrightarrow> array_at (push_if_given r' cb s) r = array_at s r"
  by (cases cb) (simp_all add: push_if_given_def array_at_def)

text \<open>The three answers of a lookup, in terms of the own entries and the inherited names.\<close>

lemma get_property_Own:
  "get_property dict name = Own v \<longleftrightarrow> fmlookup dict name = Some v"
  by (simp add: get_property_def split: option.splits)

lemma get_property_Absent:
  "get_property dict name = Absent \<longleftrightarrow> fmlookup dict name = None \<and> \<not> inherited name"
  by (simp add: get_property_def inherited_def split: option.splits)

lemma get_property_Inherited:
  "(\<exists>k. get_property dict name = Inherited k) \<longleftrightarrow> fmlookup dict name = None \<and> inherited name"
  by (auto simp add: get_property_def inherited_def split: option.splits)

lemma get_property_cases:
  obtains (own) v where "fmlookup dict name = Some v" and "get_property dict name = Own v"
  | (inherited) k where "fmlookup dict name = None" and "inherited name"
      and "get_property dict name = Inherited k"
  | (absent) "fmlookup dict name = None" and "\<not> inherited name"
      and "get_property dict name = Absent"
  by (cases "get_property dict name")
    (auto simp add: get_property_def inherited_def split: option.splits)

text \<open>
  Under the name of an inherited member, and without an entry of their own there, the
  three functions that test a string-keyed dictionary take the inherited member for an
  entry: \<open>on\<close> and \<open>onReady\<close> throw, and \<open>off\<close> throws when it was given a callback
  and returns when it was not. None of them has an effect or changes the state.
\<close>

lemma on_under_inherited_name:
  assumes "inherited name" and "fmlookup (handlers s) name = None"
  shows "on name h cb s = throws TypeError [] s"
  using assms by (cases rule: get_property_cases [of "handlers s" name]) (simp_all add: on_def)

lemma off_under_inherited_name:
  assumes "inherited name" and "fmlookup (pendingOff s) name = None"
  shows "off name h cb s = (case cb of None \<Rightarrow> returns [] s | Some c \<Rightarrow> throws TypeError [] s)"
  using assms by (cases rule: get_property_cases [of "pendingOff s" name]) (simp_all add: off_def)

lemma onReady_under_inherited_name:
  assumes "inherited name" and "fmlookup (proxyApis s) name = None"
    and "fmlookup (proxyApis s) ''__proto__'' = None"
  shows "onReady name s = throws TypeError [] s"
  using assms(1,2)
  by (cases rule: get_property_cases [of "proxyApis s" name]) (simp_all add: onReady_def)

text \<open>What \<open>on\<close> leaves in the subscription tables.\<close>

lemma on_handlers:
  "handlers (final (on n h cb s))
     = (if fmlookup (handlers s) n = None \<and> inherited n then handlers s
        else fmupd n (case fmlookup (handlers s) n of None \<Rightarrow> [h] | Some list \<Rightarrow> list @ [h])
               (handlers s))"
  by (cases rule: get_property_cases [of "handlers s" n];
      cases rule: get_property_cases [of "pendingOn s" n])
    (simp_all add: on_def returns_def throws_def new_array_def Let_def split: option.splits)

lemma on_pendingOn:
  "pendingOn (final (on n h cb s))
     = (if fmlookup (handlers s) n = None \<and> \<not> inherited n
        then fmupd n (length (arrays s)) (pendingOn s)
        else pendingOn s)"
  by (cases rule: get_property_cases [of "handlers s" n];
      cases rule: get_property_cases [of "pendingOn s" n])
    (simp_all add: on_def returns_def throws_def new_array_def Let_def split: option.splits)

lemma on_pendingOff:
  "pendingOff (final (on n h cb s)) = pendingOff s"
  by (cases rule: get_property_cases [of "handlers s" n];
      cases rule: get_property_cases [of "pendingOn s" n])
    (simp_all add: on_def returns_def throws_def new_array_def Let_def split: option.splits)

lemma on_length_arrays:
  "length (arrays (final (on n h cb s)))
     = (if fmlookup (handlers s) n = None \<and> \<not> inherited n
        then Suc (length (arrays s)) else length (arrays s))"
  by (cases rule: get_property_cases [of "handlers s" n];
      cases rule: get_property_cases [of "pendingOn s" n])
    (simp_all add: on_def returns_def throws_def new_array_def Let_def split: option.splits)

lemma on_array_at:
  assumes "r < length (arrays s)"
  shows "array_at (final (on n h cb s)) r
     = (if fmlookup (handlers s) n \<noteq> None \<and> fmlookup (pendingOn s) n = Some r
        then array_at s r @ given cb else array_at s r)"
proof (cases rule: get_property_cases [of "handlers s" n])
  case absent
  have "array_at (push_if_given (length (arrays s)) cb
          (s\<lparr>handlers := fmupd n [h] (handlers s), arrays := arrays s @ [[]],
             pendingOn := fmupd n (length (arrays s)) (pendingOn s)\<rparr>)) r = array_at s r"
    using assms by (simp add: array_at_push_other) (simp add: array_at_def nth_append)
  then show ?thesis
    using absent by (simp add: on_def returns_def new_array_def Let_def)
next
  case (inherited k)
  then show ?thesis by (simp add: on_def throws_def)
next
  case (own list)
  show ?thesis
  proof (cases rule: get_property_cases [of "pendingOn s" n])
    case absent
    then show ?thesis using own
      by (cases cb) (simp_all add: on_def returns_def throws_def Let_def)
  next
    case (inherited k)
    then show ?thesis using own
      by (cases cb) (simp_all add: on_def returns_def throws_def Let_def)
  next
    case (own r')
    then show ?thesis using \<open>get_property (handlers s) n = Own list\<close>
        \<open>fmlookup (handlers s) n = Some list\<close> assms
      by (cases "r' = r") (simp_all add: on_def returns_def array_at_push array_at_push_other)
  qed
qed

lemma on_effects:
  "effects (on n h cb s)
     = (case fmlookup (handlers s) n of
          None \<Rightarrow>
            if inherited n then [] else [RemoteSubscribe n (SubscribeAck n (length (arrays s)))]
        | Some list \<Rightarrow>
            (case fmlookup (pendingOn s) n of
               Some r \<Rightarrow> []
             | None \<Rightarrow> if inherited n then [] else map (\<lambda>c. Call c []) (given cb)))"
  by (cases rule: get_property_cases [of "handlers s" n];
      cases rule: get_property_cases [of "pendingOn s" n]; cases cb)
    (simp_all add: on_def returns_def throws_def new_array_def effects_def Let_def)

lemma on_thrown:
  "thrown (on n h cb s)
     = (if fmlookup (handlers s) n = None then (if inherited n then Some TypeError else None)
        else if fmlookup (pendingOn s) n \<noteq> None then None
        else if inherited n = (cb = None) then None else Some TypeError)"
  by (cases rule: get_property_cases [of "handlers s" n];
      cases rule: get_property_cases [of "pendingOn s" n]; cases cb)
    (simp_all add: on_def returns_def throws_def new_array_def Let_def)

text \<open>What \<open>off\<close> leaves in the subscription tables.\<close>

lemma off_handlers:
  "handlers (final (off n h cb s)) = handlers s"
  by (cases rule: get_property_cases [of "pendingOff s" n];
      cases rule: get_property_cases [of "handlers s" n])
    (simp_all add: off_def returns_def throws_def new_array_def Let_def split: option.splits)

lemma off_pendingOn:
  "pendingOn (final (off n h cb s)) = pendingOn s"
  by (cases rule: get_property_cases [of "pendingOff s" n];
      cases rule: get_property_cases [of "handlers s" n])
    (simp_all add: off_def returns_def throws_def new_array_def Let_def split: option.splits)

lemma off_pendingOff:
  "pendingOff (final (off n h cb s))
     = (if fmlookup (pendingOff s) n = None \<and> \<not> inherited n \<and> fmlookup (handlers s) n \<noteq> None
        then fmupd n (length (arrays s)) (pendingOff s) else pendingOff s)"
  by (cases rule: get_property_cases [of "pendingOff s" n];
      cases rule: get_property_cases [of "handlers s" n])
    (simp_all add: off_def returns_def throws_def new_array_def Let_def split: option.splits)

lemma off_length_arrays:
  "length (arrays (final (off n h cb s)))
     = (if fmlookup (pendingOff s) n = None \<and> \<not> inherited n \<and> fmlookup (handlers s) n \<noteq> None
        then Suc (length (arrays s)) else length (arrays s))"
  by (cases rule: get_property_cases [of "pendingOff s" n];
      cases rule: get_property_cases [of "handlers s" n])
    (simp_all add: off_def returns_def throws_def new_array_def Let_def split: option.splits)

lemma off_array_at:
  assumes "r < length (arrays s)"
  shows "array_at (final (off n h cb s)) r
     = (if fmlookup (pendingOff s) n = Some r then array_at s r @ given cb else array_at s r)"
proof (cases rule: get_property_cases [of "pendingOff s" n])
  case (own r')
  then show ?thesis using assms
    by (cases "r' = r") (simp_all add: off_def returns_def array_at_push array_at_push_other)
next
  case (inherited k)
  then show ?thesis
    by (cases cb) (simp_all add: off_def returns_def throws_def)
next
  case absent
  note idle = absent
  show ?thesis
  proof (cases rule: get_property_cases [of "handlers s" n])
    case absent
    then show ?thesis using idle
      by (cases cb) (simp_all add: off_def returns_def throws_def)
  next
    case (inherited k)
    then show ?thesis using idle by simp
  next
    case (own list)
    have "array_at (push_if_given (length (arrays s)) cb
          (s\<lparr>arrays := arrays s @ [[]],
             pendingOff := fmupd n (length (arrays s)) (pendingOff s)\<rparr>)) r = array_at s r"
      using assms by (simp add: array_at_push_other) (simp add: array_at_def nth_append)
    then show ?thesis
      using own idle
      by (simp add: off_def returns_def new_array_def Let_def)
  qed
qed

lemma off_effects:
  "effects (off n h cb s)
     = (case fmlookup (pendingOff s) n of
          Some r \<Rightarrow> []
        | None \<Rightarrow>
            if inherited n then []
            else (case fmlookup (handlers s) n of
               None \<Rightarrow> map (\<lambda>c. Call c []) (given cb)
             | Some list \<Rightarrow> [RemoteUnsubscribe n (UnsubscribeAck n (length (arrays s)))]))"
  by (cases rule: get_property_cases [of "pendingOff s" n];
      cases rule: get_property_cases [of "handlers s" n]; cases cb)
    (simp_all add: off_def returns_def throws_def new_array_def effects_def Let_def)

lemma off_thrown:
  "thrown (off n h cb s)
     = (if fmlookup (pendingOff s) n \<noteq> None then None
        else if inherited n then (if cb = None then None else Some TypeError)
        else if fmlookup (handlers s) n = None \<and> cb = None then Some TypeError else None)"
  by (cases rule: get_property_cases [of "pendingOff s" n];
      cases rule: get_property_cases [of "handlers s" n]; cases cb)
    (simp_all add: off_def returns_def throws_def new_array_def Let_def)

lemma subscriptions_array_at:
  "subscriptions s' = subscriptions s \<Longrightarrow> array_at s' r = array_at s r"
  by (simp add: subscriptions_def array_at_def)

lemma subscriptions_subscribing:
  "subscriptions s' = subscriptions s \<Longrightarrow> subscribing name r s' = subscribing name r s"
  by (simp add: subscriptions_def subscribing_def)

lemma subscriptions_unsubscribing:
  "subscriptions s' = subscriptions s \<Longrightarrow> unsubscribing name r s' = unsubscribing name r s"
  by (simp add: subscriptions_def unsubscribing_def)

lemma subscriptions_allocated:
  "subscriptions s' = subscriptions s \<Longrightarrow> allocated s' = allocated s"
  by (simp add: subscriptions_def allocated_def)

text \<open>Proxies are made without touching the subscription tables.\<close>

lemma makeStreamProxy_subscriptions [simp]:
  "subscriptions (snd (makeStreamProxy token s)) = subscriptions s"
  by (simp add: makeStreamProxy_def subscriptions_def Let_def)

lemma makeProcessProxy_subscriptions [simp]:
  "subscriptions (snd (makeProcessProxy token s)) = subscriptions s"
  by (simp add: makeProcessProxy_def makeStreamProxy_def subscriptions_def Let_def)

lemma makeWatcherProxy_subscriptions [simp]:
  "subscriptions (snd (makeWatcherProxy token s)) = subscriptions s"
  by (simp add: makeWatcherProxy_def subscriptions_def Let_def)

lemma makeApiProxy_subscriptions [simp]:
  "subscriptions (snd (makeApiProxy token s)) = subscriptions s"
  by (simp add: makeApiProxy_def subscriptions_def Let_def)

lemma materialize_subscriptions:
  assumes "\<And>token s. subscriptions (snd (mk token s)) = subscriptions s"
  shows "subscriptions (snd (materialize mk t s)) = subscriptions s"
  using assms by (cases t) (simp_all add: split_def Let_def)

lemma route_reply_subscriptions:
  "subscriptions (final (route_reply cb err result s)) = subscriptions s"
  by (cases result)
    (simp_all add: route_reply_def returns_def throws_def split_def Let_def
      materialize_subscriptions)

lemma route_reply_effects:
  "list_all calls_back (effects (route_reply cb err result s))"
  by (cases result)
    (simp_all add: route_reply_def returns_def throws_def split_def Let_def effects_def)

text \<open>Notifications do not touch the subscription tables and reach no callback.\<close>

lemma drain_forEach_subscriptions:
  "subscriptions (final (drain_forEach ks s)) = subscriptions s"
proof (induction ks)
  case Nil
  show ?case by (simp add: returns_def)
next
  case (Cons k ks)
  then show ?case
    by (cases "fmlookup (proxyStreams s) k") (simp_all add: throws_def)
qed

lemma drain_forEach_emits:
  "list_all (\<lambda>e. \<exists>t ev args. e = Emit t ev args) (effects (drain_forEach ks s))"
proof (induction ks)
  case Nil
  show ?case by (simp add: returns_def effects_def)
next
  case (Cons k ks)
  then show ?case
    by (cases "fmlookup (proxyStreams s) k") (simp_all add: throws_def effects_def)
qed

lemma dispatch_subscriptions:
  "subscriptions (final (dispatch n s)) = subscriptions s"
proof (cases n)
  case Drain
  then show ?thesis by (simp add: drain_def drain_forEach_subscriptions)
qed (simp_all add: onExit_def onData_def onEnd_def onClose_def onChange_def onReady_def
    onEvent_def returns_def throws_def subscriptions_def split: option.splits slot.splits)

lemma dispatch_effects:
  "list_all (\<lambda>e. (\<exists>t ev args. e = Emit t ev args) \<or> (\<exists>h v. e = CallHandler h v)
       \<or> (\<exists>a f args. e = RemoteCall a f args))
     (effects (dispatch n s))"
proof (cases n)
  case Drain
  have "list_all (\<lambda>e. \<exists>t ev args. e = Emit t ev args) (effects (drain s))"
    by (simp add: drain_def drain_forEach_emits)
  then show ?thesis using Drain by (simp add: list_all_iff)
qed (simp_all add: onExit_def onData_def onEnd_def onClose_def onChange_def onReady_def
    onEvent_def returns_def throws_def effects_def list_all_iff
    split: option.splits slot.splits)

lemma no_wire_call_if_emit_or_handler:
  assumes "list_all (\<lambda>e. (\<exists>t ev args. e = Emit t ev args) \<or> (\<exists>h v. e = CallHandler h v)
       \<or> (\<exists>a f args. e = RemoteCall a f args)) es"
  shows "filter (subscribes name) es = [] \<and> filter (unsubscribes name) es = []"
  using assms by (induction es) auto

lemma no_wire_call_if_calls_back:
  assumes "list_all calls_back es"
  shows "filter (subscribes name) es = [] \<and> filter (unsubscribes name) es = []"
  using assms
proof (induction es)
  case Nil
  show ?case by simp
next
  case (Cons e es)
  then show ?case by (cases e) simp_all
qed

text \<open>Calls other than \<open>on\<close>, \<open>off\<close> and their acknowledgements.\<close>

lemma perform_frame:
  assumes "\<And>n h cb. c \<noteq> On n h cb" and "\<And>n h cb. c \<noteq> Off n h cb"
    and "\<And>n r err result. c \<noteq> Reply (SubscribeAck n r) err result"
    and "\<And>n r err result. c \<noteq> Reply (UnsubscribeAck n r) err result"
  shows "subscriptions (final (perform c s)) = subscriptions s
    \<and> filter (subscribes name) (effects (perform c s)) = []
    \<and> filter (unsubscribes name) (effects (perform c s)) = []"
proof (cases c)
  case (On n h cb)
  then show ?thesis using assms(1) by simp
next
  case (Off n h cb)
  then show ?thesis using assms(2) by simp
next
  case (Route n p opts cb)
  then show ?thesis
    by (cases cb) (simp_all add: route_def returns_def throws_def effects_def)
next
  case (Ping cb)
  then show ?thesis by (simp add: ping_def returns_def effects_def)
next
  case (EmitRemote args)
  then show ?thesis by (simp add: emit_def returns_def effects_def)
next
  case (StreamWrite st chunk)
  then show ?thesis by (simp add: stream_write_def returns_def throws_def effects_def)
next
  case (StreamEnd st chunk)
  then show ?thesis by (simp add: stream_end_def returns_def throws_def effects_def)
next
  case (StreamDestroy st)
  then show ?thesis by (simp add: stream_destroy_def returns_def throws_def effects_def)
next
  case (ProcessKill p signal)
  then show ?thesis by (simp add: process_kill_def returns_def effects_def)
next
  case (WatcherClose w)
  then show ?thesis by (simp add: watcher_close_def returns_def effects_def subscriptions_def)
next
  case (ApiCall a f args)
  then show ?thesis by (simp add: api_call_def returns_def throws_def effects_def)
next
  case (Notify n)
  then show ?thesis
    using dispatch_subscriptions [of n s] no_wire_call_if_emit_or_handler [OF dispatch_effects, of name n s]
    by simp
next
  case (Reply cl err result)
  show ?thesis
  proof (cases cl)
    case (SubscribeAck n r)
    then show ?thesis using assms(3) [of n r err result] Reply by simp
  next
    case (UnsubscribeAck n r)
    then show ?thesis using assms(4) [of n r err result] Reply by simp
  next
    case (RouteReply cb)
    then show ?thesis
      using Reply route_reply_subscriptions [of cb err result s]
        no_wire_call_if_calls_back [OF route_reply_effects, of name cb err result s]
      by simp
  qed
qed

lemma registrations_Cons:
  "registrations name (c # cs) = registrations name [c] @ registrations name cs"
  by (cases c) simp_all

lemma removals_Cons:
  "removals name (c # cs) = removals name [c] @ removals name cs"
  by (cases c) simp_all

subsection \<open>The window of a pending subscribe\<close>

lemma on_keeps_subscribing:
  assumes inv: "subscribing name r s"
  shows "subscribing name r (final (on n h cb s))"
proof (cases "fmlookup (handlers s) n = None")
  case True
  then have "n \<noteq> name" using inv by (auto simp add: subscribing_def)
  then show ?thesis
    using inv True
    by (simp add: subscribing_def on_handlers on_pendingOn on_pendingOff on_length_arrays)
next
  case False
  then show ?thesis
    using inv
    by (simp add: subscribing_def on_handlers on_pendingOn on_pendingOff on_length_arrays)
qed

lemma off_keeps_subscribing:
  assumes inv: "subscribing name r s"
  shows "subscribing name r (final (off n h cb s))"
proof (cases "fmlookup (pendingOff s) n = None \<and> fmlookup (handlers s) n \<noteq> None")
  case True
  then show ?thesis
    using inv
    by (simp add: subscribing_def off_handlers off_pendingOn off_pendingOff off_length_arrays)
next
  case False
  then show ?thesis
    using inv
    by (simp add: subscribing_def off_handlers off_pendingOn off_pendingOff off_length_arrays)
qed

lemma on_in_window:
  assumes inv: "subscribing name r s"
  shows "array_at (final (on n h cb s)) r
        = array_at s r @ given_callbacks (registrations name [On n h cb])
    \<and> filter (subscribes name) (effects (on n h cb s)) = []
    \<and> (n = name \<longrightarrow> thrown (on n h cb s) = None \<and> effects (on n h cb s) = [])"
proof -
  have lt: "r < length (arrays s)" using inv by (simp add: subscribing_def)
  have entry: "fmlookup (handlers s) name \<noteq> None" using inv by (simp add: subscribing_def)
  have pending: "fmlookup (pendingOn s) name = Some r" using inv by (simp add: subscribing_def)
  have only: "n \<noteq> name \<Longrightarrow> fmlookup (pendingOn s) n \<noteq> Some r"
    using inv by (simp add: subscribing_def)
  show ?thesis
  proof (cases "n = name")
    case True
    then show ?thesis
      using entry pending by (auto simp add: on_array_at [OF lt] on_effects on_thrown)
  next
    case False
    then show ?thesis
      using only
      by (cases cb) (auto simp add: on_array_at [OF lt] on_effects split: option.splits)
  qed
qed

lemma off_in_window:
  assumes inv: "subscribing name r s"
  shows "array_at (final (off n h cb s)) r = array_at s r
    \<and> filter (subscribes name) (effects (off n h cb s)) = []"
proof -
  have lt: "r < length (arrays s)" using inv by (simp add: subscribing_def)
  have never: "fmlookup (pendingOff s) n \<noteq> Some r"
    using inv by (simp add: subscribing_def)
  show ?thesis
    using never
    by (cases cb) (auto simp add: off_array_at [OF lt] off_effects split: option.splits)
qed

lemma other_subscribe_ack_in_window:
  assumes inv: "subscribing name r s" and "n \<noteq> name"
  shows "subscribing name r (final (subscribe_ack n r' err s))
    \<and> array_at (final (subscribe_ack n r' err s)) r = array_at s r
    \<and> filter (subscribes name) (effects (subscribe_ack n r' err s)) = []"
  using assms
  by (simp add: subscribe_ack_def returns_def effects_def subscribing_def array_at_def comp_def)

lemma other_unsubscribe_ack_in_window:
  assumes inv: "subscribing name r s" and "n \<noteq> name"
  shows "subscribing name r (final (unsubscribe_ack n r' err s))
    \<and> array_at (final (unsubscribe_ack n r' err s)) r = array_at s r
    \<and> filter (subscribes name) (effects (unsubscribe_ack n r' err s)) = []"
  using assms
  by (simp add: unsubscribe_ack_def returns_def effects_def subscribing_def array_at_def comp_def
      Let_def)

lemma other_call_in_window:
  assumes inv: "subscribing name r s"
    and "\<And>n h cb. c \<noteq> On n h cb" and "\<And>n h cb. c \<noteq> Off n h cb"
    and "\<And>n r err result. c \<noteq> Reply (SubscribeAck n r) err result"
    and "\<And>n r err result. c \<noteq> Reply (UnsubscribeAck n r) err result"
  shows "subscribing name r (final (perform c s))
    \<and> array_at (final (perform c s)) r = array_at s r @ given_callbacks (registrations name [c])
    \<and> filter (subscribes name) (effects (perform c s)) = []
    \<and> (registers name c \<longrightarrow> thrown (perform c s) = None \<and> effects (perform c s) = [])"
proof -
  note frame = perform_frame [OF assms(2-5), of s name]
  from frame have same: "subscriptions (final (perform c s)) = subscriptions s" by simp
  have 1: "subscribing name r (final (perform c s))"
    using inv subscriptions_subscribing [OF same, of name r] by simp
  have 2: "array_at (final (perform c s)) r = array_at s r"
    using same by (rule subscriptions_array_at)
  have 3: "registrations name [c] = []" "\<not> registers name c"
    using assms(2) by (cases c; simp)+
  show ?thesis using 1 2 3 frame by simp
qed

text \<open>One call inside the window of a pending subscribe.\<close>

lemma subscribing_step:
  assumes inv: "subscribing name r s"
    and "\<not> subscribe_ack_for name c" and "\<not> unsubscribe_ack_for name c"
  shows "subscribing name r (final (perform c s))
    \<and> array_at (final (perform c s)) r = array_at s r @ given_callbacks (registrations name [c])
    \<and> filter (subscribes name) (effects (perform c s)) = []
    \<and> (registers name c \<longrightarrow> thrown (perform c s) = None \<and> effects (perform c s) = [])"
proof (cases c)
  case (On n h cb)
  show ?thesis
    using On on_keeps_subscribing [OF inv, of n h cb] on_in_window [OF inv, of n h cb] by simp
next
  case (Off n h cb)
  show ?thesis
    using Off off_keeps_subscribing [OF inv, of n h cb] off_in_window [OF inv, of n h cb] by simp
next
  case (Reply cl err result)
  show ?thesis
  proof (cases cl)
    case (SubscribeAck n r')
    then have "n \<noteq> name" using assms(2) Reply by simp
    then show ?thesis
      using Reply SubscribeAck other_subscribe_ack_in_window [OF inv, of n r' err] by simp
  next
    case (UnsubscribeAck n r')
    then have "n \<noteq> name" using assms(3) Reply by simp
    then show ?thesis
      using Reply UnsubscribeAck other_unsubscribe_ack_in_window [OF inv, of n r' err] by simp
  next
    case (RouteReply cb)
    show ?thesis
      by (rule other_call_in_window [OF inv]) (simp_all add: Reply RouteReply)
  qed
qed (rule other_call_in_window [OF inv]; simp)+

text \<open>The whole window of a pending subscribe.\<close>

lemma subscribing_window:
  assumes "subscribing name r s"
    and "list_all (\<lambda>c. \<not> subscribe_ack_for name c \<and> \<not> unsubscribe_ack_for name c) cs"
  shows "subscribing name r (state_after cs s)
    \<and> array_at (state_after cs s) r = array_at s r @ given_callbacks (registrations name cs)
    \<and> filter (subscribes name) (concat (map effects (outcomes cs s))) = []
    \<and> list_all (\<lambda>(c, x). registers name c \<longrightarrow> thrown x = None \<and> effects x = [])
         (zip cs (outcomes cs s))"
  using assms
proof (induction cs arbitrary: s)
  case Nil
  then show ?case by simp
next
  case (Cons c cs)
  have quiet: "\<not> subscribe_ack_for name c" "\<not> unsubscribe_ack_for name c"
    and rest: "list_all (\<lambda>c. \<not> subscribe_ack_for name c \<and> \<not> unsubscribe_ack_for name c) cs"
    using Cons.prems(2) by simp_all
  note step = subscribing_step [OF Cons.prems(1) quiet]
  from step have inv': "subscribing name r (final (perform c s))" by simp
  note IH = Cons.IH [OF inv' rest]
  have given: "given_callbacks (registrations name (c # cs))
      = given_callbacks (registrations name [c]) @ given_callbacks (registrations name cs)"
    by (subst registrations_Cons) (simp add: given_callbacks_def)
  show ?case
    using step IH by (simp add: given)
qed

lemma allocated_names:
  assumes "allocated s"
  shows "fmlookup (handlers s) n \<noteq> None \<Longrightarrow> \<not> inherited n"
    and "fmlookup (pendingOn s) n \<noteq> None \<Longrightarrow> \<not> inherited n"
    and "fmlookup (pendingOff s) n \<noteq> None \<Longrightarrow> \<not> inherited n"
  using assms by (auto simp add: allocated_def dest: fmpredD)

lemma allocated_lookup:
  assumes "allocated s"
  shows "fmlookup (pendingOn s) n \<noteq> Some (length (arrays s))"
    and "fmlookup (pendingOff s) n \<noteq> Some (length (arrays s))"
proof -
  have on: "\<And>r. fmlookup (pendingOn s) n = Some r \<Longrightarrow> r < length (arrays s)"
    using assms by (auto simp add: allocated_def dest: fmpredD)
  have off: "\<And>r. fmlookup (pendingOff s) n = Some r \<Longrightarrow> r < length (arrays s)"
    using assms by (auto simp add: allocated_def dest: fmpredD)
  show "fmlookup (pendingOn s) n \<noteq> Some (length (arrays s))" using on by fastforce
  show "fmlookup (pendingOff s) n \<noteq> Some (length (arrays s))" using off by fastforce
qed

text \<open>The first registration opens the window.\<close>

lemma first_on_opens_window:
  assumes "get_property (handlers s) name = Absent" and "allocated s"
  shows "subscribing name (length (arrays s)) (final (on name h cb s))
    \<and> array_at (final (on name h cb s)) (length (arrays s)) = given cb
    \<and> thrown (on name h cb s) = None
    \<and> effects (on name h cb s) = [RemoteSubscribe name (SubscribeAck name (length (arrays s)))]"
proof -
  have none: "fmlookup (handlers s) name = None" and plain: "\<not> inherited name"
    using assms(1) by (simp_all add: get_property_Absent)
  have inv: "subscribing name (length (arrays s)) (final (on name h cb s))"
    using none plain allocated_lookup [OF assms(2)]
    by (simp add: subscribing_def on_handlers on_pendingOn on_pendingOff on_length_arrays)
  have arr: "array_at (final (on name h cb s)) (length (arrays s)) = given cb"
    using assms(1)
    by (cases cb) (simp_all add: on_def new_array_def returns_def push_if_given_def array_at_def Let_def)
  show ?thesis
    using inv arr none plain by (simp add: on_thrown on_effects)
qed

subsection \<open>The window of a pending unsubscribe\<close>

lemma on_keeps_unsubscribing:
  assumes inv: "unsubscribing name r s"
  shows "unsubscribing name r (final (on n h cb s))"
  using inv
  by (simp add: unsubscribing_def on_pendingOn on_pendingOff on_length_arrays)

lemma off_keeps_unsubscribing:
  assumes inv: "unsubscribing name r s"
  shows "unsubscribing name r (final (off n h cb s))"
proof (cases "fmlookup (pendingOff s) n = None \<and> fmlookup (handlers s) n \<noteq> None")
  case True
  then have "n \<noteq> name" using inv by (auto simp add: unsubscribing_def)
  then show ?thesis
    using inv True
    by (simp add: unsubscribing_def off_pendingOn off_pendingOff off_length_arrays)
next
  case False
  then show ?thesis
    using inv
    by (simp add: unsubscribing_def off_pendingOn off_pendingOff off_length_arrays)
qed

lemma on_in_unsubscribe_window:
  assumes inv: "unsubscribing name r s"
  shows "array_at (final (on n h cb s)) r = array_at s r
    \<and> filter (unsubscribes name) (effects (on n h cb s)) = []"
proof -
  have lt: "r < length (arrays s)" using inv by (simp add: unsubscribing_def)
  have never: "fmlookup (pendingOn s) n \<noteq> Some r"
    using inv by (simp add: unsubscribing_def)
  show ?thesis
    using never
    by (cases cb) (auto simp add: on_array_at [OF lt] on_effects split: option.splits)
qed

lemma off_in_unsubscribe_window:
  assumes inv: "unsubscribing name r s"
  shows "array_at (final (off n h cb s)) r
        = array_at s r @ given_callbacks (removals name [Off n h cb])
    \<and> filter (unsubscribes name) (effects (off n h cb s)) = []
    \<and> (n = name \<longrightarrow> thrown (off n h cb s) = None \<and> effects (off n h cb s) = [])"
proof -
  have lt: "r < length (arrays s)" using inv by (simp add: unsubscribing_def)
  have pending: "fmlookup (pendingOff s) name = Some r" using inv by (simp add: unsubscribing_def)
  have only: "n \<noteq> name \<Longrightarrow> fmlookup (pendingOff s) n \<noteq> Some r"
    using inv by (simp add: unsubscribing_def)
  show ?thesis
  proof (cases "n = name")
    case True
    then show ?thesis
      using pending by (auto simp add: off_array_at [OF lt] off_effects off_thrown)
  next
    case False
    then show ?thesis
      using only
      by (cases cb) (auto simp add: off_array_at [OF lt] off_effects split: option.splits)
  qed
qed

lemma subscribe_ack_in_unsubscribe_window:
  assumes inv: "unsubscribing name r s"
  shows "unsubscribing name r (final (subscribe_ack n r' err s))
    \<and> array_at (final (subscribe_ack n r' err s)) r = array_at s r
    \<and> filter (unsubscribes name) (effects (subscribe_ack n r' err s)) = []"
  using assms
  by (simp add: subscribe_ack_def returns_def effects_def unsubscribing_def array_at_def comp_def)

lemma other_unsubscribe_ack_in_unsubscribe_window:
  assumes inv: "unsubscribing name r s" and "n \<noteq> name"
  shows "unsubscribing name r (final (unsubscribe_ack n r' err s))
    \<and> array_at (final (unsubscribe_ack n r' err s)) r = array_at s r
    \<and> filter (unsubscribes name) (effects (unsubscribe_ack n r' err s)) = []"
  using assms
  by (simp add: unsubscribe_ack_def returns_def effects_def unsubscribing_def array_at_def comp_def
      Let_def)

lemma other_call_in_unsubscribe_window:
  assumes inv: "unsubscribing name r s"
    and "\<And>n h cb. c \<noteq> On n h cb" and "\<And>n h cb. c \<noteq> Off n h cb"
    and "\<And>n r err result. c \<noteq> Reply (SubscribeAck n r) err result"
    and "\<And>n r err result. c \<noteq> Reply (UnsubscribeAck n r) err result"
  shows "unsubscribing name r (final (perform c s))
    \<and> array_at (final (perform c s)) r = array_at s r @ given_callbacks (removals name [c])
    \<and> filter (unsubscribes name) (effects (perform c s)) = []
    \<and> (removes name c \<longrightarrow> thrown (perform c s) = None \<and> effects (perform c s) = [])"
proof -
  note frame = perform_frame [OF assms(2-5), of s name]
  from frame have same: "subscriptions (final (perform c s)) = subscriptions s" by simp
  have 1: "unsubscribing name r (final (perform c s))"
    using inv subscriptions_unsubscribing [OF same, of name r] by simp
  have 2: "array_at (final (perform c s)) r = array_at s r"
    using same by (rule subscriptions_array_at)
  have 3: "removals name [c] = []" "\<not> removes name c"
    using assms(3) by (cases c; simp)+
  show ?thesis using 1 2 3 frame by simp
qed

text \<open>One call inside the window of a pending unsubscribe.\<close>

lemma unsubscribing_step:
  assumes inv: "unsubscribing name r s" and "\<not> unsubscribe_ack_for name c"
  shows "unsubscribing name r (final (perform c s))
    \<and> array_at (final (perform c s)) r = array_at s r @ given_callbacks (removals name [c])
    \<and> filter (unsubscribes name) (effects (perform c s)) = []
    \<and> (removes name c \<longrightarrow> thrown (perform c s) = None \<and> effects (perform c s) = [])"
proof (cases c)
  case (On n h cb)
  show ?thesis
    using On on_keeps_unsubscribing [OF inv, of n h cb] on_in_unsubscribe_window [OF inv, of n h cb]
    by simp
next
  case (Off n h cb)
  show ?thesis
    using Off off_keeps_unsubscribing [OF inv, of n h cb]
      off_in_unsubscribe_window [OF inv, of n h cb]
    by simp
next
  case (Reply cl err result)
  show ?thesis
  proof (cases cl)
    case (SubscribeAck n r')
    then show ?thesis
      using Reply subscribe_ack_in_unsubscribe_window [OF inv, of n r' err] by simp
  next
    case (UnsubscribeAck n r')
    then have "n \<noteq> name" using assms(2) Reply by simp
    then show ?thesis
      using Reply UnsubscribeAck other_unsubscribe_ack_in_unsubscribe_window [OF inv, of n r' err]
      by simp
  next
    case (RouteReply cb)
    show ?thesis
      by (rule other_call_in_unsubscribe_window [OF inv]) (simp_all add: Reply RouteReply)
  qed
qed (rule other_call_in_unsubscribe_window [OF inv]; simp)+

lemma unsubscribing_window:
  assumes "unsubscribing name r s"
    and "list_all (\<lambda>c. \<not> unsubscribe_ack_for name c) cs"
  shows "unsubscribing name r (state_after cs s)
    \<and> array_at (state_after cs s) r = array_at s r @ given_callbacks (removals name cs)
    \<and> filter (unsubscribes name) (concat (map effects (outcomes cs s))) = []
    \<and> list_all (\<lambda>(c, x). removes name c \<longrightarrow> thrown x = None \<and> effects x = [])
         (zip cs (outcomes cs s))"
  using assms
proof (induction cs arbitrary: s)
  case Nil
  then show ?case by simp
next
  case (Cons c cs)
  have quiet: "\<not> unsubscribe_ack_for name c"
    and rest: "list_all (\<lambda>c. \<not> unsubscribe_ack_for name c) cs"
    using Cons.prems(2) by simp_all
  note step = unsubscribing_step [OF Cons.prems(1) quiet]
  from step have inv': "unsubscribing name r (final (perform c s))" by simp
  note IH = Cons.IH [OF inv' rest]
  have given: "given_callbacks (removals name (c # cs))
      = given_callbacks (removals name [c]) @ given_callbacks (removals name cs)"
    by (subst removals_Cons) (simp add: given_callbacks_def)
  show ?case
    using step IH by (simp add: given)
qed

lemma first_off_opens_window:
  assumes "fmlookup (handlers s) name \<noteq> None" and "fmlookup (pendingOff s) name = None"
    and "allocated s"
  shows "unsubscribing name (length (arrays s)) (final (off name h cb s))
    \<and> array_at (final (off name h cb s)) (length (arrays s)) = given cb
    \<and> thrown (off name h cb s) = None
    \<and> effects (off name h cb s)
        = [RemoteUnsubscribe name (UnsubscribeAck name (length (arrays s)))]"
proof -
  have plain: "\<not> inherited name"
    using allocated_names(1) [OF assms(3) assms(1)] .
  have idle: "get_property (pendingOff s) name = Absent"
    using assms(2) plain by (simp add: get_property_Absent)
  obtain list where entry: "get_property (handlers s) name = Own list"
    using assms(1) by (auto simp add: get_property_Own)
  have inv: "unsubscribing name (length (arrays s)) (final (off name h cb s))"
    using assms(1,2) plain allocated_lookup [OF assms(3)]
    by (simp add: unsubscribing_def off_pendingOn off_pendingOff off_length_arrays)
  have arr: "array_at (final (off name h cb s)) (length (arrays s)) = given cb"
    using idle entry
    by (cases cb)
      (simp_all add: off_def new_array_def returns_def push_if_given_def array_at_def Let_def)
  show ?thesis
    using inv arr assms(1,2) plain by (auto simp add: off_thrown off_effects)
qed

subsection \<open>Invariants of every execution\<close>

text \<open>
  Every call keeps the references allocated and the entries of the subscription tables
  away from the inherited names, and every stream proxy registered under its id:
  \<open>allocated\<close> and \<open>ids_agree\<close> hold in every state that an execution from \<open>init\<close>
  reaches.
\<close>

lemma allocated_init: "allocated init"
  by (simp add: allocated_def init_def)

lemma allocated_on:
  assumes "allocated s"
  shows "allocated (final (on n h cb s))"
  using assms
  by (auto simp add: allocated_def fmpred_iff on_handlers on_pendingOn on_pendingOff
      on_length_arrays less_Suc_eq split: if_splits)

lemma allocated_off:
  assumes "allocated s"
  shows "allocated (final (off n h cb s))"
  using assms
  by (auto simp add: allocated_def fmpred_iff off_handlers off_pendingOn off_pendingOff
      off_length_arrays less_Suc_eq split: if_splits)

lemma allocated_perform:
  assumes "allocated s"
  shows "allocated (final (perform c s))"
proof (cases c)
  case (On n h cb)
  then show ?thesis using allocated_on [OF assms] by simp
next
  case (Off n h cb)
  then show ?thesis using allocated_off [OF assms] by simp
next
  case (Reply cl err result)
  show ?thesis
  proof (cases cl)
    case (SubscribeAck n r)
    then show ?thesis using assms Reply
      by (auto simp add: allocated_def subscribe_ack_def returns_def)
  next
    case (UnsubscribeAck n r)
    then show ?thesis using assms Reply
      by (auto simp add: allocated_def unsubscribe_ack_def returns_def Let_def)
  next
    case (RouteReply cb)
    have "subscriptions (final (perform c s)) = subscriptions s"
      using perform_frame [of c s undefined] Reply RouteReply by simp
    from subscriptions_allocated [OF this] show ?thesis using assms by simp
  qed
qed (use assms perform_frame [of c s undefined] subscriptions_allocated [of "final (perform c s)" s]
      in simp_all)

lemma allocated_state_after:
  "allocated s \<Longrightarrow> allocated (state_after cs s)"
  by (induction cs arbitrary: s) (simp_all add: allocated_perform)

lemma ids_agree_init: "ids_agree init"
  by (simp add: ids_agree_def init_def)

lemma ids_agree_makeStreamProxy:
  "ids_agree s \<Longrightarrow> ids_agree (snd (makeStreamProxy token s))"
  by (auto simp add: ids_agree_def makeStreamProxy_def Let_def)

lemma ids_agree_makeProcessProxy:
  assumes "ids_agree s"
  shows "ids_agree (snd (makeProcessProxy token s))"
proof -
  have "proxyStreams (snd (makeProcessProxy token s))
      = proxyStreams (snd (makeStreamProxy (token_stdin token)
          (snd (makeStreamProxy (token_stderr token)
            (snd (makeStreamProxy (token_stdout token) s))))))"
    by (simp add: makeProcessProxy_def split_def Let_def)
  moreover have "ids_agree (snd (makeStreamProxy (token_stdin token)
          (snd (makeStreamProxy (token_stderr token)
            (snd (makeStreamProxy (token_stdout token) s))))))"
    by (intro ids_agree_makeStreamProxy assms)
  ultimately show ?thesis by (simp add: ids_agree_def)
qed

lemma ids_agree_makeWatcherProxy:
  "ids_agree s \<Longrightarrow> ids_agree (snd (makeWatcherProxy token s))"
  by (simp add: ids_agree_def makeWatcherProxy_def Let_def)

lemma ids_agree_makeApiProxy:
  "ids_agree s \<Longrightarrow> ids_agree (snd (makeApiProxy token s))"
  by (simp add: ids_agree_def makeApiProxy_def Let_def)

lemma ids_agree_materialize:
  assumes "\<And>token s. ids_agree s \<Longrightarrow> ids_agree (snd (mk token s))" and "ids_agree s"
  shows "ids_agree (snd (materialize mk t s))"
  using assms by (cases t) (simp_all add: split_def Let_def)

lemma ids_agree_route_reply:
  assumes "ids_agree s"
  shows "ids_agree (final (route_reply cb err result s))"
proof (cases result)
  case None
  then show ?thesis using assms by (simp add: route_reply_def returns_def throws_def)
next
  case (Some m)
  have "ids_agree (snd (materialize makeApiProxy (meta_api m)
      (snd (materialize makeWatcherProxy (meta_watcher m)
        (snd (materialize makeProcessProxy (meta_process m)
          (snd (materialize makeStreamProxy (meta_stream m) s))))))))"
    by (intro ids_agree_materialize ids_agree_makeApiProxy ids_agree_makeWatcherProxy
        ids_agree_makeProcessProxy ids_agree_makeStreamProxy assms)
  then show ?thesis
    using Some assms by (simp add: route_reply_def returns_def split_def Let_def)
qed

lemma drain_forEach_final:
  "proxyStreams (final (drain_forEach ks s)) = proxyStreams s"
proof (induction ks)
  case Nil
  show ?case by (simp add: returns_def)
next
  case (Cons k ks)
  then show ?case
    by (cases "fmlookup (proxyStreams s) k") (simp_all add: throws_def)
qed

lemma ids_agree_dispatch:
  assumes "ids_agree s"
  shows "ids_agree (final (dispatch n s))"
proof (cases n)
  case Drain
  then show ?thesis using assms by (simp add: ids_agree_def drain_def drain_forEach_final)
qed (use assms in \<open>auto simp add: ids_agree_def onExit_def onData_def onEnd_def onClose_def
    onChange_def onReady_def onEvent_def returns_def throws_def
    split: option.splits slot.splits\<close>)

lemma on_proxyStreams: "proxyStreams (final (on n h cb s)) = proxyStreams s"
  by (simp add: on_def returns_def throws_def new_array_def Let_def
      split: option.splits slot.splits)

lemma off_proxyStreams: "proxyStreams (final (off n h cb s)) = proxyStreams s"
  by (simp add: off_def returns_def throws_def new_array_def Let_def
      split: option.splits slot.splits)

lemma ids_agree_perform:
  assumes "ids_agree s"
  shows "ids_agree (final (perform c s))"
proof (cases c)
  case (On n h cb)
  then show ?thesis using assms by (simp add: ids_agree_def on_proxyStreams)
next
  case (Off n h cb)
  then show ?thesis using assms by (simp add: ids_agree_def off_proxyStreams)
next
  case (Notify n)
  then show ?thesis using ids_agree_dispatch [OF assms] by simp
next
  case (Reply cl err result)
  then show ?thesis
    using assms ids_agree_route_reply [OF assms]
    by (cases cl) (simp_all add: ids_agree_def subscribe_ack_def unsubscribe_ack_def returns_def Let_def)
qed (use assms in \<open>simp_all add: ids_agree_def route_def ping_def emit_def stream_write_def
    stream_end_def stream_destroy_def process_kill_def watcher_close_def api_call_def
    returns_def throws_def split: option.splits\<close>)

lemma ids_agree_state_after:
  "ids_agree s \<Longrightarrow> ids_agree (state_after cs s)"
  by (induction cs arbitrary: s) (simp_all add: ids_agree_perform)

subsection \<open>The drain loop and the scenario\<close>

text \<open>The loop of the drain listener over keys that are all registered.\<close>

lemma drain_forEach_registered:
  assumes "\<forall>k \<in> set ks. fmlookup (proxyStreams s) k \<noteq> None"
  shows "thrown (drain_forEach ks s) = None \<and> final (drain_forEach ks s) = s
    \<and> trace (drain_forEach ks s)
        = map (\<lambda>k. (Emit (OnStream (the (fmlookup (proxyStreams s) k))) ''drain'' [], s))
            (filter (\<lambda>k. \<exists>st. fmlookup (proxyStreams s) k = Some st \<and> writable st) ks)"
  using assms
proof (induction ks)
  case Nil
  then show ?case by (simp add: returns_def)
next
  case (Cons k ks)
  then obtain st where st: "fmlookup (proxyStreams s) k = Some st" by auto
  from Cons have IH: "thrown (drain_forEach ks s) = None \<and> final (drain_forEach ks s) = s
    \<and> trace (drain_forEach ks s)
        = map (\<lambda>k. (Emit (OnStream (the (fmlookup (proxyStreams s) k))) ''drain'' [], s))
            (filter (\<lambda>k. \<exists>st. fmlookup (proxyStreams s) k = Some st \<and> writable st) ks)"
    by simp
  show ?case
    using IH by (simp add: st)
qed

text \<open>The scenario, evaluated.\<close>

lemma spawned_eq:
  "spawned = init\<lparr>proxyStreams :=
        fmupd 3 (stdin process7) (fmupd 2 (stderr process7) (fmupd 1 (stdout process7) fmempty)),
      proxyProcesses := fmupd 7 process7 fmempty\<rparr>"
  by (simp add: spawned_def spawn_result_def process7_def init_def route_reply_def returns_def
      makeProcessProxy_def makeStreamProxy_def Let_def)

lemma subscribed_eq:
  "subscribed = init\<lparr>handlers := fmupd ''change'' [Handler 1, Handler 2, Handler 3] fmempty,
      arrays := [[Callback 1, Callback 2, Callback 3]]\<rparr>"
  by (simp add: subscribed_def init_def on_def get_property_def object_prototype_def
      new_array_def push_if_given_def array_at_def subscribe_ack_def returns_def Let_def
      fmdrop_fmupd_same)

subsection \<open>Subscriptions\<close>

text \<open>
  Registrations before the acknowledgement. Take any event name for which
  \<^verbatim>\<open>handlers[name]\<close> is \<^verbatim>\<open>undefined\<close> (no entry of its own, and not the name of an
  inherited member) and register a handler for it with \<open>on\<close>. Let any calls follow,
  further registrations for the name among them, up to the acknowledgement of the
  subscribe: none of them is an acknowledgement for the name, since the transport
  answers in order. The whole execution issues exactly one wire-level subscribe for the
  name, the one of the first call, and no registration for the name throws or calls a
  callback. When the function handed to that subscribe is then run with the
  acknowledgement's error, it calls the callbacks of the registrations for the name, in
  the order of the registrations, each with that error as its only argument, and leaves
  no subscribe pending for the name.
\<close>

lemma handlers_before_ack_share_one_subscribe:
  assumes "get_property (handlers s) name = Absent" and "allocated s"
    and "list_all (\<lambda>c. \<not> subscribe_ack_for name c \<and> \<not> unsubscribe_ack_for name c) cs"
  shows "filter (subscribes name) (concat (map effects (outcomes (On name h cb # cs) s)))
        = [RemoteSubscribe name (SubscribeAck name (length (arrays s)))]
    \<and> list_all (\<lambda>(c, x). registers name c \<longrightarrow> thrown x = None \<and> filter calls_back (effects x) = [])
         (zip (On name h cb # cs) (outcomes (On name h cb # cs) s))
    \<and> thrown (invoke (SubscribeAck name (length (arrays s))) err result
         (state_after (On name h cb # cs) s)) = None
    \<and> effects (invoke (SubscribeAck name (length (arrays s))) err result
         (state_after (On name h cb # cs) s))
        = map (\<lambda>c. Call c [Value err]) (given_callbacks (registrations name (On name h cb # cs)))
    \<and> fmlookup (pendingOn (final (invoke (SubscribeAck name (length (arrays s))) err result
         (state_after (On name h cb # cs) s)))) name = None"
proof -
  define r where "r = length (arrays s)"
  define s1 where "s1 = final (on name h cb s)"
  note first = first_on_opens_window [OF assms(1,2), of h cb, folded r_def s1_def]
  from first have inv: "subscribing name r s1" by simp
  note window = subscribing_window [OF inv assms(3)]
  have quiet:
    "list_all (\<lambda>(c, x). registers name c \<longrightarrow> thrown x = None \<and> filter calls_back (effects x) = [])
      (zip cs (outcomes cs s1))"
    using window by (auto simp add: list_all_iff)
  have queue:
    "array_at (state_after cs s1) r = given_callbacks (registrations name (On name h cb # cs))"
    using window first by simp
  show ?thesis
    unfolding r_def [symmetric]
    using first window quiet queue
    by (simp add: s1_def [symmetric] subscribe_ack_def returns_def effects_def comp_def)
qed

text \<open>
  In the scenario three handlers are registered for \<open>change\<close> on a fresh consumer before
  the acknowledgement, among calls for other names.
\<close>

lemma handlers_before_ack_share_one_subscribe_example:
  "get_property (handlers init) ''change'' = Absent \<and> allocated init
   \<and> list_all (\<lambda>c. \<not> subscribe_ack_for ''change'' c \<and> \<not> unsubscribe_ack_for ''change'' c)
        while_subscribing
   \<and> filter (subscribes ''change'')
        (concat (map effects
          (outcomes (On ''change'' (Handler 1) (Some (Callback 1)) # while_subscribing) init)))
       = [RemoteSubscribe ''change'' (SubscribeAck ''change'' 0)]
   \<and> effects (invoke (SubscribeAck ''change'' 0) (JError ''denied'') None
        (state_after (On ''change'' (Handler 1) (Some (Callback 1)) # while_subscribing) init))
       = [Call (Callback 1) [Value (JError ''denied'')],
          Call (Callback 2) [Value (JError ''denied'')],
          Call (Callback 3) [Value (JError ''denied'')]]"
proof -
  have empty: "get_property (handlers init) ''change'' = Absent"
    by (simp add: init_def get_property_def object_prototype_def)
  have alloc: "allocated init" by (rule allocated_init)
  have window:
    "list_all (\<lambda>c. \<not> subscribe_ack_for ''change'' c \<and> \<not> unsubscribe_ack_for ''change'' c)
       while_subscribing"
    by (simp add: while_subscribing_def)
  have none: "length (arrays init) = 0" by (simp add: init_def)
  have given:
    "given_callbacks
       (registrations ''change'' (On ''change'' (Handler 1) (Some (Callback 1)) # while_subscribing))
      = [Callback 1, Callback 2, Callback 3]"
    by (simp add: while_subscribing_def)
  show ?thesis
    using handlers_before_ack_share_one_subscribe
      [OF empty alloc window, of "Handler 1" "Some (Callback 1)" "JError ''denied''" None]
      empty alloc window
    unfolding none given
    by simp
qed

text \<open>
  C1. The claim speaks of every event name, and \<^verbatim>\<open>constructor\<close> is one. For that name
  \<^verbatim>\<open>handlers[name]\<close> is the inherited member of \<^verbatim>\<open>Object.prototype\<close>, so \<open>on\<close> takes
  the path of a name that already has handlers and fails at \<^verbatim>\<open>push\<close>, which the member
  does not have. On a fresh consumer two registrations in a row, each with a callback,
  both throw a TypeError: no wire-level subscribe is issued, and nothing is written to
  the state, so neither callback is queued and no acknowledgement can ever call it.
\<close>

theorem registrations_under_constructor_issue_no_subscribe:
  "outcomes [On ''constructor'' h1 (Some cb1), On ''constructor'' h2 (Some cb2)] init
     = [throws TypeError [] init, throws TypeError [] init]"
  by (simp add: on_def get_property_def object_prototype_def init_def throws_def)

text \<open>
  C4. Take any event name with an entry in \<open>handlers\<close> and no unsubscribe pending, and
  call \<open>off\<close> for it, with any handler argument. Let any calls follow, further
  \<open>off\<close> and \<open>on\<close> for the name among them, up to the acknowledgement of the
  unsubscribe. The whole execution issues exactly one wire-level unsubscribe for the
  name, the one of the first call, and no \<open>off\<close> for the name throws or calls a
  callback. When the function handed to that unsubscribe is then run, it first deletes
  the whole entry of the name, every handler with it, and then calls the callbacks of
  the \<open>off\<close> calls for the name, in their order, each with the acknowledgement's error
  and each finding the entry gone; it leaves no unsubscribe pending for the name.
\<close>

theorem off_tears_down_the_whole_name:
  assumes "fmlookup (handlers s) name \<noteq> None" and "fmlookup (pendingOff s) name = None"
    and "allocated s" and "list_all (\<lambda>c. \<not> unsubscribe_ack_for name c) cs"
  shows "filter (unsubscribes name) (concat (map effects (outcomes (Off name h cb # cs) s)))
        = [RemoteUnsubscribe name (UnsubscribeAck name (length (arrays s)))]
    \<and> list_all (\<lambda>(c, x). removes name c \<longrightarrow> thrown x = None \<and> filter calls_back (effects x) = [])
         (zip (Off name h cb # cs) (outcomes (Off name h cb # cs) s))
    \<and> thrown (invoke (UnsubscribeAck name (length (arrays s))) err result
         (state_after (Off name h cb # cs) s)) = None
    \<and> effects (invoke (UnsubscribeAck name (length (arrays s))) err result
         (state_after (Off name h cb # cs) s))
        = map (\<lambda>c. Call c [Value err]) (given_callbacks (removals name (Off name h cb # cs)))
    \<and> list_all (\<lambda>(e, t). fmlookup (handlers t) name = None)
         (trace (invoke (UnsubscribeAck name (length (arrays s))) err result
           (state_after (Off name h cb # cs) s)))
    \<and> fmlookup (handlers (final (invoke (UnsubscribeAck name (length (arrays s))) err result
         (state_after (Off name h cb # cs) s)))) name = None
    \<and> fmlookup (pendingOff (final (invoke (UnsubscribeAck name (length (arrays s))) err result
         (state_after (Off name h cb # cs) s)))) name = None"
proof -
  define r where "r = length (arrays s)"
  define s1 where "s1 = final (off name h cb s)"
  note first = first_off_opens_window [OF assms(1,2,3), of h cb, folded r_def s1_def]
  from first have inv: "unsubscribing name r s1" by simp
  note window = unsubscribing_window [OF inv assms(4)]
  have quiet:
    "list_all (\<lambda>(c, x). removes name c \<longrightarrow> thrown x = None \<and> filter calls_back (effects x) = [])
      (zip cs (outcomes cs s1))"
    using window by (auto simp add: list_all_iff)
  have queue:
    "array_at (state_after cs s1) r = given_callbacks (removals name (Off name h cb # cs))"
    using window first by simp
  have queue':
    "array_at ((state_after cs s1)\<lparr>handlers := fmdrop name (handlers (state_after cs s1))\<rparr>) r
      = given_callbacks (removals name (Off name h cb # cs))"
    using queue by simp
  show ?thesis
    unfolding r_def [symmetric]
    using first window quiet queue'
    by (simp add: s1_def [symmetric] unsubscribe_ack_def returns_def effects_def comp_def Let_def)
      (auto simp add: list_all_iff)
qed

text \<open>
  In the scenario three handlers are subscribed to \<open>change\<close>; \<open>off\<close> names the second
  only, and a fourth is registered while the unsubscribe is pending. The
  acknowledgement removes them all.
\<close>

theorem off_tears_down_the_whole_name_witness:
  "fmlookup (handlers subscribed) ''change'' \<noteq> None
   \<and> fmlookup (pendingOff subscribed) ''change'' = None \<and> allocated subscribed
   \<and> list_all (\<lambda>c. \<not> unsubscribe_ack_for ''change'' c) while_unsubscribing
   \<and> filter (unsubscribes ''change'')
        (concat (map effects
          (outcomes (Off ''change'' (Handler 2) (Some (Callback 4)) # while_unsubscribing) subscribed)))
       = [RemoteUnsubscribe ''change'' (UnsubscribeAck ''change'' 1)]
   \<and> effects (invoke (UnsubscribeAck ''change'' 1) JNull None
        (state_after (Off ''change'' (Handler 2) (Some (Callback 4)) # while_unsubscribing) subscribed))
       = [Call (Callback 4) [Value JNull], Call (Callback 5) [Value JNull]]
   \<and> fmlookup (handlers (final (invoke (UnsubscribeAck ''change'' 1) JNull None
        (state_after (Off ''change'' (Handler 2) (Some (Callback 4)) # while_unsubscribing)
          subscribed)))) ''change''
       = None"
proof -
  have entry: "fmlookup (handlers subscribed) ''change'' \<noteq> None"
    by (simp add: subscribed_eq init_def)
  have idle: "fmlookup (pendingOff subscribed) ''change'' = None"
    by (simp add: subscribed_eq init_def)
  have plain: "\<not> inherited ''change''"
    by (simp add: inherited_def object_prototype_def)
  have alloc: "allocated subscribed"
    using plain
    by (auto simp add: subscribed_eq init_def allocated_def fmpred_iff split: if_splits)
  have window: "list_all (\<lambda>c. \<not> unsubscribe_ack_for ''change'' c) while_unsubscribing"
    by (simp add: while_unsubscribing_def)
  have one: "length (arrays subscribed) = 1" by (simp add: subscribed_eq)
  have given:
    "given_callbacks
       (removals ''change'' (Off ''change'' (Handler 2) (Some (Callback 4)) # while_unsubscribing))
      = [Callback 4, Callback 5]"
    by (simp add: while_unsubscribing_def)
  show ?thesis
    using off_tears_down_the_whole_name
      [OF entry idle alloc window, of "Handler 2" "Some (Callback 4)" JNull None]
      entry idle alloc window
    unfolding one given
    by simp
qed

text \<open>
  Unsubscribing a name that has nothing. For every event name for which both
  \<^verbatim>\<open>pendingOff[name]\<close> and \<^verbatim>\<open>handlers[name]\<close> are \<^verbatim>\<open>undefined\<close>, \<open>off\<close> with a callback
  calls that callback at once, with no argument, issues no wire-level unsubscribe (the
  call of the callback is its only effect) and leaves the state as it was.
\<close>

lemma off_without_entry_calls_back_at_once:
  assumes "get_property (handlers s) name = Absent"
    and "get_property (pendingOff s) name = Absent"
  shows "off name h (Some cb) s = returns [(Call cb [], s)] s"
  using assms by (simp add: off_def)

lemma off_without_entry_calls_back_at_once_example:
  "get_property (handlers init) ''change'' = Absent
   \<and> get_property (pendingOff init) ''change'' = Absent
   \<and> off ''change'' (Handler 0) (Some (Callback 0)) init = returns [(Call (Callback 0) [], init)] init"
  using off_without_entry_calls_back_at_once [of init "''change''" "Handler 0" "Callback 0"]
  by (simp add: init_def get_property_def object_prototype_def)

text \<open>
  C7. The claim speaks of every event name with no handler entry and no pending
  unsubscribe, and on a fresh consumer \<^verbatim>\<open>constructor\<close> is one. For that name
  \<^verbatim>\<open>pendingOff[name]\<close> is the inherited member of \<^verbatim>\<open>Object.prototype\<close>, so \<open>off\<close> takes
  the path of a pending unsubscribe and, given a callback, fails at \<^verbatim>\<open>push\<close>, which the
  member does not have: a TypeError is thrown and the callback is not called, neither at
  once nor later, since nothing was written to the state.
\<close>

theorem off_under_constructor_never_calls_back:
  "off ''constructor'' h (Some cb) init = throws TypeError [] init"
  by (simp add: off_def get_property_def object_prototype_def init_def)

text \<open>
  The callback of \<open>on\<close> and \<open>off\<close> under a name that is not the name of an inherited
  member. On the two immediate paths (\<open>on\<close> for a name with an entry and no subscribe
  pending, \<open>off\<close> for a name with no entry and no unsubscribe pending) the callback is
  called at once, with no argument, as the only effect; when it was omitted, that call
  is the TypeError. \<open>on\<close> has stored the handler by then.
\<close>

lemma immediate_paths_call_the_callback:
  assumes "\<not> inherited name"
  shows "fmlookup (handlers s) name = Some list \<Longrightarrow> fmlookup (pendingOn s) name = None \<Longrightarrow>
      on name h (Some cb) s
        = returns [(Call cb [], s\<lparr>handlers := fmupd name (list @ [h]) (handlers s)\<rparr>)]
            (s\<lparr>handlers := fmupd name (list @ [h]) (handlers s)\<rparr>)"
    and "fmlookup (handlers s) name = Some list \<Longrightarrow> fmlookup (pendingOn s) name = None \<Longrightarrow>
      on name h None s
        = throws TypeError [] (s\<lparr>handlers := fmupd name (list @ [h]) (handlers s)\<rparr>)"
    and "fmlookup (handlers s) name = None \<Longrightarrow> fmlookup (pendingOff s) name = None \<Longrightarrow>
      off name h (Some cb) s = returns [(Call cb [], s)] s"
    and "fmlookup (handlers s) name = None \<Longrightarrow> fmlookup (pendingOff s) name = None \<Longrightarrow>
      off name h None s = throws TypeError [] s"
  using assms
  by (simp_all add: on_def off_def get_property_def inherited_def Let_def split: option.splits)

text \<open>
  On the queued paths (a subscribe or an unsubscribe is pending for the name) the
  callback is pushed to the pending array when it was given, and nothing else happens:
  an omitted callback is accepted. The first \<open>on\<close> and the first \<open>off\<close> for a name,
  which start the subscribe and the unsubscribe, accept it in the same way.
\<close>

lemma queued_paths_accept_an_omitted_callback:
  shows "fmlookup (handlers s) name = Some list \<Longrightarrow> fmlookup (pendingOn s) name = Some r \<Longrightarrow>
      on name h cb s
        = returns [] (push_if_given r cb (s\<lparr>handlers := fmupd name (list @ [h]) (handlers s)\<rparr>))"
    and "fmlookup (pendingOff s) name = Some r \<Longrightarrow>
      off name h cb s = returns [] (push_if_given r cb s)"
  by (simp_all add: on_def off_def get_property_def Let_def)

text \<open>
  Together: with the callback omitted, \<open>on\<close> throws exactly when the name has an entry
  and no subscribe is pending, and \<open>off\<close> exactly when the name has no entry and no
  unsubscribe is pending. With a callback, neither throws.
\<close>

lemma omitted_callback_throws_on_immediate_paths_only:
  assumes "\<not> inherited name"
  shows "thrown (on name h None s) =
     (if fmlookup (handlers s) name \<noteq> None \<and> fmlookup (pendingOn s) name = None
      then Some TypeError else None)
   \<and> thrown (off name h None s) =
     (if fmlookup (handlers s) name = None \<and> fmlookup (pendingOff s) name = None
      then Some TypeError else None)
   \<and> thrown (on name h (Some cb) s) = None
   \<and> thrown (off name h (Some cb) s) = None"
  using assms by (simp add: on_thrown off_thrown)

lemma omitted_callback_throws_on_immediate_paths_only_example:
  "thrown (on ''change'' (Handler 4) None subscribed) = Some TypeError
   \<and> thrown (off ''change'' (Handler 4) None init) = Some TypeError
   \<and> thrown (on ''change'' (Handler 4) None init) = None
   \<and> thrown (off ''change'' (Handler 4) None subscribed) = None"
  using omitted_callback_throws_on_immediate_paths_only [of "''change''" "Handler 4" subscribed]
    omitted_callback_throws_on_immediate_paths_only [of "''change''" "Handler 4" init]
  by (simp add: subscribed_eq init_def inherited_def object_prototype_def)

text \<open>
  C9. The claim puts \<open>off\<close> for a name without an entry among the immediate paths: the
  callback is called unconditionally, so omitting it raises a type error. On a fresh
  consumer no name has an entry, \<^verbatim>\<open>toString\<close> neither. For that name
  \<^verbatim>\<open>pendingOff[name]\<close> is the inherited member of \<^verbatim>\<open>Object.prototype\<close>, so \<open>off\<close> takes
  the path of a pending unsubscribe: with the callback omitted it returns with no
  exception and no effect, and with a callback it fails at \<^verbatim>\<open>push\<close> before the callback
  could be called. The callback is treated the other way round from what the claim
  says of this path.
\<close>

theorem off_under_toString_treats_the_callback_the_other_way:
  "off ''toString'' h None init = returns [] init
   \<and> off ''toString'' h (Some cb) init = throws TypeError [] init"
  by (simp add: off_def get_property_def object_prototype_def init_def)

subsection \<open>Inbound notifications\<close>

text \<open>
  C2 (as the code has it). A data notification whose id has no stream proxy, and an
  exit notification whose pid has no process proxy, make the handler dereference the
  missing entry: the dispatch throws a TypeError, before any event is emitted and with
  every registry as it was. The code has no path that reports the fault in another way.
\<close>

theorem absent_data_or_exit_throws:
  assumes "fmlookup (proxyStreams s) sid = None" and "fmlookup (proxyProcesses s) p = None"
  shows "dispatch (Data sid chunk) s = throws TypeError [] s
    \<and> dispatch (Exit p code signal) s = throws TypeError [] s"
  using assms by (simp add: onData_def onExit_def)

theorem absent_data_or_exit_throws_witness:
  "fmlookup (proxyStreams init) 1 = None \<and> fmlookup (proxyProcesses init) 1 = None
   \<and> dispatch (Data 1 (JStr ''x'')) init = throws TypeError [] init
   \<and> dispatch (Exit 1 (JNum 0) JNull) init = throws TypeError [] init"
  using absent_data_or_exit_throws [of init 1 1 "JStr ''x''" "JNum 0" JNull]
  by (simp add: init_def)

text \<open>
  The claim as the specification states it (no exception is raised) fails on the empty
  consumer.
\<close>

theorem absent_data_or_exit_counterexample:
  "thrown (dispatch (Data 1 (JStr ''x'')) init) = Some TypeError
   \<and> thrown (dispatch (Exit 1 (JNum 0) JNull) init) = Some TypeError"
  by (simp add: onData_def onExit_def init_def throws_def)

text \<open>
  C3. For every process proxy registered under a pid, whatever the stream registry
  holds, an exit notification for that pid emits \<open>exit\<close> with the code and the signal
  on the process proxy, in the state the notification found (the entries still there),
  and leaves a state in which the entry of the pid and the entries of the ids of its
  three streams are gone and every other process and stream entry is as before.
\<close>

theorem exit_emits_then_removes_process_and_streams:
  assumes "fmlookup (proxyProcesses s) p = Some proc"
  shows "thrown (onExit p code signal s) = None
    \<and> trace (onExit p code signal s) = [(Emit (OnProcess proc) ''exit'' [code, signal], s)]
    \<and> fmlookup (proxyProcesses (final (onExit p code signal s))) q
        = (if q = p then None else fmlookup (proxyProcesses s) q)
    \<and> fmlookup (proxyStreams (final (onExit p code signal s))) i
        = (if i \<in> {stream_id (stdout proc), stream_id (stderr proc), stream_id (stdin proc)}
           then None else fmlookup (proxyStreams s) i)"
  using assms by (auto simp add: onExit_def returns_def)

text \<open>
  The scenario of the specification: process 7 of the spawn reply, whose standard
  output (stream 1) has already ended when the exit notification arrives.
\<close>

theorem exit_emits_then_removes_process_and_streams_witness:
  "fmlookup (proxyProcesses (final (onEnd 1 spawned))) 7 = Some process7
   \<and> fmlookup (proxyStreams (final (onEnd 1 spawned))) 1 = None
   \<and> effects (onExit 7 (JNum 0) JNull (final (onEnd 1 spawned)))
       = [Emit (OnProcess process7) ''exit'' [JNum 0, JNull]]
   \<and> fmlookup (proxyProcesses (final (onExit 7 (JNum 0) JNull (final (onEnd 1 spawned))))) 7 = None
   \<and> fmlookup (proxyStreams (final (onExit 7 (JNum 0) JNull (final (onEnd 1 spawned))))) 1 = None
   \<and> fmlookup (proxyStreams (final (onExit 7 (JNum 0) JNull (final (onEnd 1 spawned))))) 2 = None
   \<and> fmlookup (proxyStreams (final (onExit 7 (JNum 0) JNull (final (onEnd 1 spawned))))) 3 = None"
proof -
  have ended: "final (onEnd 1 spawned) =
      spawned\<lparr>proxyStreams := fmdrop 1 (proxyStreams spawned)\<rparr>"
    by (simp add: onEnd_def returns_def spawned_eq process7_def)
  have proc: "fmlookup (proxyProcesses (final (onEnd 1 spawned))) 7 = Some process7"
    unfolding ended by (simp add: spawned_eq)
  have gone: "fmlookup (proxyStreams (final (onEnd 1 spawned))) 1 = None"
    unfolding ended by simp
  have ids: "stream_id (stdout process7) = 1" "stream_id (stderr process7) = 2"
    "stream_id (stdin process7) = 3"
    by (simp_all add: process7_def)
  show ?thesis
    using exit_emits_then_removes_process_and_streams [OF proc, of "JNum 0" JNull 7 1]
      exit_emits_then_removes_process_and_streams [OF proc, of "JNum 0" JNull 7 2]
      exit_emits_then_removes_process_and_streams [OF proc, of "JNum 0" JNull 7 3]
      proc gone
    unfolding ids
    by (simp add: effects_def)
qed

text \<open>
  C8. A drain notification never throws and changes nothing. It emits \<open>drain\<close> on
  exactly the stream proxies that are in the stream registry when it is processed and
  are writable, once for every registered id of such a proxy. So a proxy that is not
  writable gets no drain event, and neither does a proxy that is not, or no longer, in
  the registry under its id (every proxy that is registered is registered under its
  id, \<open>ids_agree\<close>).
\<close>

theorem drain_reaches_registered_writable_streams:
  "thrown (drain s) = None \<and> final (drain s) = s
   \<and> set (effects (drain s))
       = {Emit (OnStream st) ''drain'' [] | sid st.
            fmlookup (proxyStreams s) sid = Some st \<and> writable st}
   \<and> length (effects (drain s))
       = card {sid. \<exists>st. fmlookup (proxyStreams s) sid = Some st \<and> writable st}
   \<and> (\<not> writable st' \<longrightarrow> Emit (OnStream st') ''drain'' [] \<notin> set (effects (drain s)))
   \<and> (ids_agree s \<and> fmlookup (proxyStreams s) (stream_id st') \<noteq> Some st'
        \<longrightarrow> Emit (OnStream st') ''drain'' [] \<notin> set (effects (drain s)))"
proof -
  define ks where "ks = sorted_list_of_fset (fmdom (proxyStreams s))"
  define P where "P = (\<lambda>k. \<exists>st. fmlookup (proxyStreams s) k = Some st \<and> writable st)"
  have keys: "set ks = {k. fmlookup (proxyStreams s) k \<noteq> None}"
    by (auto simp add: ks_def fmdom.rep_eq fmlookup_dom_iff dom_def)
  have dist: "distinct ks" by (simp add: ks_def sorted_list_of_fset.rep_eq)
  have reg: "\<forall>k \<in> set ks. fmlookup (proxyStreams s) k \<noteq> None"
    using keys by simp
  note loop = drain_forEach_registered [OF reg, folded P_def]
  have tr: "effects (drain s) =
      map (\<lambda>k. Emit (OnStream (the (fmlookup (proxyStreams s) k))) ''drain'' []) (filter P ks)"
    using loop by (simp add: drain_def effects_def ks_def comp_def)
  have P_keys: "{k \<in> set ks. P k} = {k. P k}"
    using keys by (auto simp add: P_def)
  have len: "length (effects (drain s)) = card {k. P k}"
  proof -
    have "distinct (filter P ks)" using dist by simp
    then have "length (filter P ks) = card (set (filter P ks))"
      by (rule distinct_card [symmetric])
    also have "set (filter P ks) = {k. P k}" using P_keys by simp
    finally show ?thesis by (simp add: tr)
  qed
  have mem: "set (effects (drain s))
       = {Emit (OnStream st) ''drain'' [] | sid st.
            fmlookup (proxyStreams s) sid = Some st \<and> writable st}"
  proof -
    have "set (effects (drain s)) =
        (\<lambda>k. Emit (OnStream (the (fmlookup (proxyStreams s) k))) ''drain'' []) ` {k. P k}"
      using P_keys by (simp add: tr)
    also have "\<dots> = {Emit (OnStream st) ''drain'' [] | sid st.
        fmlookup (proxyStreams s) sid = Some st \<and> writable st}"
      by (auto simp add: P_def image_iff) force
    finally show ?thesis .
  qed
  have deaf: "\<not> writable st' \<longrightarrow> Emit (OnStream st') ''drain'' [] \<notin> set (effects (drain s))"
    using mem by auto
  have gone: "ids_agree s \<and> fmlookup (proxyStreams s) (stream_id st') \<noteq> Some st'
        \<longrightarrow> Emit (OnStream st') ''drain'' [] \<notin> set (effects (drain s))"
  proof (intro impI notI, elim conjE)
    assume agree: "ids_agree s"
      and absent: "fmlookup (proxyStreams s) (stream_id st') \<noteq> Some st'"
      and "Emit (OnStream st') ''drain'' [] \<in> set (effects (drain s))"
    then obtain sid where sid: "fmlookup (proxyStreams s) sid = Some st'"
      using mem by auto
    then have "stream_id st' = sid"
      using agree by (auto simp add: ids_agree_def dest: fmpredD)
    then show False using sid absent by simp
  qed
  show ?thesis
    using loop len mem deaf gone by (simp add: drain_def ks_def P_def)
qed

text \<open>
  In the scenario only the standard input of process 7 is writable: it gets the drain
  event while it is registered, and none once a close notification has removed it.
\<close>

theorem drain_reaches_registered_writable_streams_witness:
  "effects (drain spawned) = [Emit (OnStream (stdin process7)) ''drain'' []]
   \<and> \<not> writable (stdout process7)
   \<and> Emit (OnStream (stdout process7)) ''drain'' [] \<notin> set (effects (drain spawned))
   \<and> ids_agree (final (onClose 3 spawned))
   \<and> fmlookup (proxyStreams (final (onClose 3 spawned))) (stream_id (stdin process7))
       \<noteq> Some (stdin process7)
   \<and> Emit (OnStream (stdin process7)) ''drain'' [] \<notin> set (effects (drain (final (onClose 3 spawned))))"
proof -
  have reached: "effects (drain spawned) = [Emit (OnStream (stdin process7)) ''drain'' []]"
    by code_simp
  have deaf: "\<not> writable (stdout process7)" by (simp add: process7_def)
  have "ids_agree spawned"
    unfolding spawned_def invoke.simps by (rule ids_agree_route_reply [OF ids_agree_init])
  then have agree: "ids_agree (final (onClose 3 spawned))"
    using ids_agree_dispatch [of spawned "Close 3"] by simp
  have absent: "fmlookup (proxyStreams (final (onClose 3 spawned))) (stream_id (stdin process7))
       \<noteq> Some (stdin process7)"
    by (simp add: onClose_def returns_def spawned_eq process7_def)
  have silent: "Emit (OnStream (stdout process7)) ''drain'' [] \<notin> set (effects (drain spawned))"
    using drain_reaches_registered_writable_streams [of spawned "stdout process7"] deaf
    by blast
  have removed:
    "Emit (OnStream (stdin process7)) ''drain'' [] \<notin> set (effects (drain (final (onClose 3 spawned))))"
    using drain_reaches_registered_writable_streams
      [of "final (onClose 3 spawned)" "stdin process7"] agree absent
    by blast
  show ?thesis
    by (intro conjI reached deaf silent agree absent removed)
qed

text \<open>
  Notifications for what the registries do not hold. For an id that is not in the
  stream registry, \<open>onEnd\<close> dereferences the missing entry and throws a TypeError, while
  \<open>onClose\<close> returns without any effect; so do \<open>onChange\<close> for an id that is not in the
  watcher registry and \<open>onReady\<close> for a name at which \<^verbatim>\<open>proxyApis[name]\<close> is
  \<^verbatim>\<open>undefined\<close>. In all four cases the state is left as it was.
\<close>

lemma end_throws_where_close_change_ready_return:
  assumes "fmlookup (proxyStreams s) sid = None"
    and "fmlookup (proxyWatchers s) wid = None"
    and "get_property (proxyApis s) name = Absent"
    and "fmlookup (proxyApis s) ''__proto__'' = None"
  shows "onEnd sid s = throws TypeError [] s
    \<and> onClose sid s = returns [] s
    \<and> onChange wid event filename s = returns [] s
    \<and> onReady name s = returns [] s"
  using assms(1-3) by (simp add: onEnd_def onClose_def onChange_def onReady_def)

lemma end_throws_where_close_change_ready_return_example:
  "fmlookup (proxyStreams spawned) 4 = None \<and> fmlookup (proxyWatchers spawned) 4 = None
   \<and> get_property (proxyApis spawned) ''math'' = Absent
   \<and> thrown (onEnd 4 spawned) = Some TypeError
   \<and> onClose 4 spawned = returns [] spawned
   \<and> onChange 4 (JStr ''rename'') (JStr ''a.txt'') spawned = returns [] spawned
   \<and> onReady ''math'' spawned = returns [] spawned"
proof -
  have absent: "fmlookup (proxyStreams spawned) 4 = None"
    "fmlookup (proxyWatchers spawned) 4 = None"
    "get_property (proxyApis spawned) ''math'' = Absent"
    "fmlookup (proxyApis spawned) ''__proto__'' = None"
    by (simp_all add: spawned_eq init_def get_property_def object_prototype_def)
  show ?thesis
    using end_throws_where_close_change_ready_return
      [OF absent, of "JStr ''rename''" "JStr ''a.txt''"] absent(1-3)
    by (simp add: throws_def)
qed

text \<open>
  C10. The claim has \<open>onReady\<close> return without effect for a name that is absent from
  the api registry. A fresh consumer has no api proxy at all, none named
  \<^verbatim>\<open>constructor\<close> either. For that name \<^verbatim>\<open>proxyApis[name]\<close> is the inherited member of
  \<^verbatim>\<open>Object.prototype\<close>, so the test for absence lets it pass and \<^verbatim>\<open>api.emit("ready")\<close>
  calls what the member does not have: the ready notification throws a TypeError, as
  an end notification for a missing stream does.
\<close>

theorem ready_under_constructor_throws:
  "onReady ''constructor'' init = throws TypeError [] init"
  by (simp add: onReady_def get_property_def object_prototype_def init_def)

subsection \<open>The facade\<close>

text \<open>
  C5. For every operation that \<open>route\<close> builds and every callback, the call hands the
  transport one function; when the transport runs it with an error (a value that
  \<^verbatim>\<open>if (err)\<close> accepts), in whatever state the consumer then is, the only effect is the
  call of the callback with that error as its only argument: no proxy is made and the
  state, the four registries included, is left as it was.
\<close>

theorem route_error_reaches_callback_only:
  assumes "truthy err"
  shows "effects (route name path options (Some cb) s)
        = [RemoteOperation name path options (RouteReply cb)]
    \<and> invoke (RouteReply cb) err result s' = returns [(Call cb [Value err], s')] s'"
  using assms by (simp add: route_def route_reply_def returns_def effects_def)

theorem route_error_reaches_callback_only_witness:
  "truthy (JError ''ENOENT'')
   \<and> effects (route ''spawn'' (JStr ''x'') JNull (Some (Callback 0)) init)
       = [RemoteOperation ''spawn'' (JStr ''x'') JNull (RouteReply (Callback 0))]
   \<and> invoke (RouteReply (Callback 0)) (JError ''ENOENT'') (Some spawn_result) init
       = returns [(Call (Callback 0) [Value (JError ''ENOENT'')], init)] init"
  using route_error_reaches_callback_only
    [of "JError ''ENOENT''" "''spawn''" "JStr ''x''" JNull "Callback 0" init "Some spawn_result" init]
  by simp

text \<open>
  C6. An operation that \<open>route\<close> builds, called without a callback, throws at once
  (\<^verbatim>\<open>Error("Forgot to pass in callback for " + name)\<close>): nothing is handed to the
  transport, there is no other effect and the state is untouched. This holds for every
  operation name, hence for the sixteen of \<open>vfs_operations\<close>.
\<close>

theorem route_without_callback_throws:
  "thrown (route name path options None s)
     = Some (Error (''Forgot to pass in callback for '' @ name))
   \<and> trace (route name path options None s) = []
   \<and> final (route name path options None s) = s"
  by (simp add: route_def throws_def)

end
